theory Spec2Isabelle
  imports Complex_Main "HOL-Library.While_Combinator" "HOL-Library.Signed_Division"
begin

section \<open>The output waveform and the squarewave fill\<close>

text \<open>
  \<^verbatim>\<open>SparseDigitalWaveform\<close> as far as \<^verbatim>\<open>ClockRecoveryFilter.cpp\<close> touches it: the three
  parallel buffers. Timestamps are \<^verbatim>\<open>int64_t\<close> femtoseconds; they are modelled as
  unbounded integers, so the model describes the runs of the program in which no
  signed overflow (undefined behaviour in C++) occurs.
\<close>

record SparseDigitalWaveform =
  m_offsets :: "int list"
  m_durations :: "int list"
  m_samples :: "bool list"

text \<open>\<^verbatim>\<open>cap.m_samples.resize(len)\<close>: keep the first \<open>len\<close> elements, pad when short.\<close>

definition resize :: "nat \<Rightarrow> bool list \<Rightarrow> bool list" where
  "resize len xs = take len xs @ replicate (len - length xs) False"

text \<open>
  The scalar loop shared by both fills:
  \<^verbatim>\<open>for(size_t i=start; i<len; i++) { value = !value; cap.m_samples[i] = value; }\<close>
\<close>

function fill_scalar :: "nat \<Rightarrow> nat \<Rightarrow> bool \<Rightarrow> bool list \<Rightarrow> bool list" where
  "fill_scalar i len v xs =
     (if i < len then fill_scalar (i + 1) len (\<not> v) (xs[i := \<not> v]) else xs)"
  by pat_completeness auto
termination
  by (relation "measure (\<lambda>(i, len, v, xs). len - i)") auto

declare fill_scalar.simps [simp del]

definition FillSquarewaveGeneric :: "SparseDigitalWaveform \<Rightarrow> SparseDigitalWaveform" where
  "FillSquarewaveGeneric cap =
     (let len = length (m_offsets cap);
          buf = resize len (m_samples cap)
      in cap\<lparr>m_samples := fill_scalar 0 len False buf\<rparr>)"

text \<open>The 32-byte fill pattern of the AVX2 path, as the source initialises it.\<close>

definition filler :: "bool list" where
  "filler =
    [False, True, False, True, False, True, False, True,
     False, True, False, True, False, True, False, True,
     False, True, False, True, False, True, False, True,
     False, True, False, True, False, True, False, True]"

text \<open>
  \<^verbatim>\<open>_mm256_storeu_si256(ptr + i, fill)\<close> overwrites the 32 bytes at \<open>i .. i+31\<close>
  (one byte per \<^verbatim>\<open>bool\<close>).
\<close>

definition store32 :: "nat \<Rightarrow> bool list \<Rightarrow> bool list \<Rightarrow> bool list" where
  "store32 i block xs = take i xs @ block @ drop (i + 32) xs"

function fill_blocks :: "nat \<Rightarrow> nat \<Rightarrow> bool list \<Rightarrow> bool list" where
  "fill_blocks i end xs =
     (if i < end then fill_blocks (i + 32) end (store32 i filler xs) else xs)"
  by pat_completeness auto
termination
  by (relation "measure (\<lambda>(i, end, xs). end - i)") auto

declare fill_blocks.simps [simp del]

definition FillSquarewaveAVX2 :: "SparseDigitalWaveform \<Rightarrow> SparseDigitalWaveform" where
  "FillSquarewaveAVX2 cap =
     (let len = length (m_offsets cap);
          buf = resize len (m_samples cap)
      in if len = 0 then cap\<lparr>m_samples := buf\<rparr>
         else
           let end = len - (len mod 32);
               blocks = fill_blocks 0 end buf
           in cap\<lparr>m_samples := fill_scalar end len False blocks\<rparr>)"

text \<open>A waveform holding \<open>n\<close> output edges one femtosecond apart and nothing else.\<close>

definition cap_of_len :: "nat \<Rightarrow> SparseDigitalWaveform" where
  "cap_of_len n = \<lparr>m_offsets = map int [0..<n], m_durations = [], m_samples = []\<rparr>"


section \<open>Arithmetic of the source language\<close>

text \<open>
  \<^verbatim>\<open>size_t\<close> is 64 bits wide and unsigned. Sizes and indices are natural numbers; the
  one operation on them that can wrap, \<^verbatim>\<open>size() - 1\<close>, is written out: on an empty
  container it is \<open>2\<^sup>6\<^sup>4 - 1\<close>.
\<close>

definition size_dec :: "nat \<Rightarrow> int" where
  "size_dec n = (if n = 0 then 2 ^ 64 - 1 else int n - 1)"

text \<open>
  Integer division of C++ truncates towards zero: \<open>sdiv\<close>. A conversion from a
  floating-point value to \<^verbatim>\<open>int64_t\<close> truncates towards zero too.
\<close>

definition f2i :: "rat \<Rightarrow> int" where
  "f2i x = (if 0 \<le> x then \<lfloor>x\<rfloor> else - \<lfloor>- x\<rfloor>)"

text \<open>
  The finite values of \<^verbatim>\<open>float\<close> (IEEE-754 binary32, 24 significant bits) and
  \<^verbatim>\<open>double\<close> (binary64, 53 bits) are modelled as the rational numbers they denote.
  An operation computes the exact result and rounds it to the nearest value with \<open>p\<close>
  significant bits, ties to the even significand. Exponent range (overflow, subnormal
  numbers), infinities and NaN are not modelled; a division by zero is 0 as in HOL.

  \<open>flog2 x\<close> is the binary exponent of a positive \<open>x\<close>: \<open>2 ^ flog2 x \<le> x < 2 ^ (flog2 x + 1)\<close>.
\<close>

function flog2_up :: "rat \<Rightarrow> int" where
  "flog2_up x = (if x < 2 then 0 else 1 + flog2_up (x / 2))"
  by pat_completeness auto
termination
proof (relation "measure (\<lambda>x. nat \<lfloor>x\<rfloor>)")
  show "wf (measure (\<lambda>x::rat. nat \<lfloor>x\<rfloor>))" by simp
next
  fix x :: rat assume "\<not> x < 2"
  then have "(1::rat) \<le> of_int \<lfloor>x\<rfloor>" by simp
  moreover have "x < of_int \<lfloor>x\<rfloor> + 1" by linarith
  ultimately have "x / 2 < of_int \<lfloor>x\<rfloor>" by linarith
  then have "\<lfloor>x / 2\<rfloor> < \<lfloor>x\<rfloor>" by (simp add: floor_less_iff)
  moreover have "0 < \<lfloor>x\<rfloor>" using \<open>\<not> x < 2\<close> by simp
  ultimately show "(x / 2, x) \<in> measure (\<lambda>x. nat \<lfloor>x\<rfloor>)" by simp
qed

declare flog2_up.simps [simp del]

function flog2_dn :: "rat \<Rightarrow> int" where
  "flog2_dn x = (if x \<le> 0 \<or> 1 \<le> x then 0 else flog2_dn (2 * x) - 1)"
  by pat_completeness auto
termination
proof (relation "measure (\<lambda>x. nat \<lfloor>1 / x\<rfloor>)")
  show "wf (measure (\<lambda>x::rat. nat \<lfloor>1 / x\<rfloor>))" by simp
next
  fix x :: rat assume "\<not> (x \<le> 0 \<or> 1 \<le> x)"
  then have x: "0 < x" "x < 1" by auto
  define y where "y = 1 / x"
  have one: "1 \<le> y" using x by (simp add: y_def)
  then have "(1::rat) \<le> of_int \<lfloor>y\<rfloor>" by simp
  moreover have "y < of_int \<lfloor>y\<rfloor> + 1" by linarith
  ultimately have "y / 2 < of_int \<lfloor>y\<rfloor>" by linarith
  then have "\<lfloor>y / 2\<rfloor> < \<lfloor>y\<rfloor>" by (simp add: floor_less_iff)
  moreover have "1 / (2 * x) = y / 2" by (simp add: y_def)
  ultimately have less: "\<lfloor>1 / (2 * x)\<rfloor> < \<lfloor>1 / x\<rfloor>" by (simp only: y_def)
  have "0 < \<lfloor>1 / x\<rfloor>" using one by (simp add: y_def)
  with less show "(2 * x, x) \<in> measure (\<lambda>x. nat \<lfloor>1 / x\<rfloor>)"
    by (simp only: in_measure zless_nat_conj)
qed

declare flog2_dn.simps [simp del]

definition flog2 :: "rat \<Rightarrow> int" where
  "flog2 x = (if 1 \<le> x then flog2_up x else flog2_dn x)"

definition round_even :: "rat \<Rightarrow> int" where
  "round_even y =
     (let f = \<lfloor>y\<rfloor>; r = y - of_int f
      in if r < 1 / 2 then f else if 1 / 2 < r then f + 1 else if even f then f else f + 1)"

definition fround :: "nat \<Rightarrow> rat \<Rightarrow> rat" where
  "fround p x =
     (if x = 0 then 0
      else let u = 2 powi (flog2 \<bar>x\<bar> - int p + 1) in of_int (round_even (x / u)) * u)"

definition f32 :: "rat \<Rightarrow> rat" where
  "f32 x = fround 24 x"

definition f64 :: "rat \<Rightarrow> rat" where
  "f64 x = fround 53 x"

text \<open>Conversions of an \<^verbatim>\<open>int64_t\<close> to \<^verbatim>\<open>float\<close> and to \<^verbatim>\<open>double\<close>.\<close>

definition i2f :: "int \<Rightarrow> rat" where
  "i2f i = f32 (of_int i)"

definition i2d :: "int \<Rightarrow> rat" where
  "i2d i = f64 (of_int i)"

text \<open>\<^verbatim>\<open>round()\<close> of the C library: to the nearest integer, halves away from zero.\<close>

definition cround :: "rat \<Rightarrow> rat" where
  "cround x = of_int (if 0 \<le> x then \<lfloor>x + 1 / 2\<rfloor> else - \<lfloor>- x + 1 / 2\<rfloor>)"

text \<open>The \<^verbatim>\<open>double\<close> literals of the source.\<close>

definition d_0_006 :: rat where "d_0_006 = f64 (6 / 1000)"
definition d_0_002 :: rat where "d_0_002 = f64 (2 / 1000)"
definition d_0_0025 :: rat where "d_0_0025 = f64 (25 / 10000)"
definition d_0_1 :: rat where "d_0_1 = f64 (1 / 10)"
definition d_0_75 :: rat where "d_0_75 = f64 (3 / 4)"
definition d_1_25 :: rat where "d_1_25 = f64 (5 / 4)"

section \<open>The frame of the two inner loops\<close>

text \<open>
  \<open>pll_call\<close> holds the arguments both loops share. The gated loop assigns to its
  parameters \<^verbatim>\<open>initialPeriod\<close> and \<^verbatim>\<open>halfPeriod\<close> on reacquisition, so they are
  part of the state; the other three are never assigned.
\<close>

record pll_call =
  edges :: "int list"
  tend :: int
  initialPeriod :: int
  halfPeriod :: int
  fnyquist :: int

text \<open>
  \<open>pll_frame\<close> adds the local variables both loops have, and the offsets pushed to
  \<^verbatim>\<open>cap.m_offsets\<close>. \<open>visits\<close> is not a variable of the program: it records, for
  every real edge the inner \<^verbatim>\<open>while\<close> visits, its index, whether the loop was gated at
  that moment and whether the correction block (\<^verbatim>\<open>if(tlast != 0) { ... }\<close>) ran. Nothing
  reads it.
\<close>

record pll_frame = pll_call +
  nedge :: nat
  edgepos :: int
  tlast :: int
  offsets :: "int list"
  visits :: "(nat \<times> bool \<times> bool) list"

datatype pll_error = EdgeIndexOutOfRange | GateIndexOutOfRange | EmptyLengths | DivisionByZero

definition visit :: "bool \<Rightarrow> bool \<Rightarrow> 'a pll_frame_scheme \<Rightarrow> 'a pll_frame_scheme" where
  "visit gated corrected s = s\<lparr>visits := visits s @ [(nedge s, gated, corrected)]\<rparr>"

definition next_edge :: "int \<Rightarrow> 'a pll_frame_scheme \<Rightarrow> 'a pll_frame_scheme" where
  \<comment> \<open>\<^verbatim>\<open>tlast = tnext; tnext = edges[++nedge];\<close> (the loops re-read \<open>tnext\<close> from \<open>nedge\<close>)\<close>
  "next_edge tnext s = s\<lparr>tlast := tnext, nedge := nedge s + 1\<rparr>"

definition push_offset :: "int \<Rightarrow> 'a pll_frame_scheme \<Rightarrow> 'a pll_frame_scheme" where
  \<comment> \<open>\<^verbatim>\<open>cap.m_offsets.push_back(x)\<close>\<close>
  "push_offset x s = s\<lparr>offsets := offsets s @ [x]\<rparr>"

section \<open>InnerLoopWithNoGating\<close>

record ng_frame = pll_frame +
  iperiod :: int
  fperiod :: rat

definition initialFrequency :: "ng_frame \<Rightarrow> rat" where
  \<comment> \<open>\<^verbatim>\<open>float initialFrequency = 1.0 / initialPeriod;\<close>\<close>
  "initialFrequency s = f32 (f64 (1 / i2d (initialPeriod s)))"

definition glitchCutoff :: "ng_frame \<Rightarrow> int" where
  "glitchCutoff s = initialPeriod s sdiv 10"

definition edgemax :: "ng_frame \<Rightarrow> int" where
  "edgemax s = size_dec (length (edges s))"

definition ng_dphase :: "ng_frame \<Rightarrow> int \<Rightarrow> int" where
  "ng_dphase s tnext = (edgepos s - tnext) - iperiod s"

text \<open>The phase error as a \<^verbatim>\<open>float\<close>, wrapped once each way by the period.\<close>

definition ng_fdphase :: "ng_frame \<Rightarrow> int \<Rightarrow> rat" where
  "ng_fdphase s tnext =
     (let fHalfPeriod = i2f (halfPeriod s);
          fdphase = i2f (ng_dphase s tnext);
          fdphase = (if fdphase > fHalfPeriod then f32 (fdphase - fperiod s) else fdphase);
          fdphase = (if fdphase < - fHalfPeriod then f32 (fdphase + fperiod s) else fdphase)
      in fdphase)"

text \<open>The rounded number of unit intervals between the last two real edges.\<close>

definition ng_numUIs :: "ng_frame \<Rightarrow> int \<Rightarrow> rat" where
  "ng_numUIs s tnext = cround (f32 (i2f (tnext - tlast s) * initialFrequency s))"

text \<open>The frequency error \<^verbatim>\<open>fdperiod\<close>.\<close>

definition ng_fdperiod :: "ng_frame \<Rightarrow> int \<Rightarrow> rat" where
  "ng_fdperiod s tnext =
     (let uiLen = i2f (tnext - tlast s)
      in if uiLen > i2f (glitchCutoff s) then
           (let numUIs = ng_numUIs s tnext
            in if numUIs \<noteq> 0 then f32 (fperiod s - f32 (uiLen / numUIs)) else 0)
         else 0)"

text \<open>The correction block: frequency and phase error term, then the bang-bang shift.\<close>

definition ng_correct :: "ng_frame \<Rightarrow> int \<Rightarrow> ng_frame" where
  "ng_correct s tnext =
     (let errorTerm = f32 (f64 (f64 (ng_fdperiod s tnext * d_0_006) + f64 (ng_fdphase s tnext * d_0_002)));
          fp = f32 (fperiod s - errorTerm);
          bangbang = f2i (f64 (fp * d_0_0025))
      in s\<lparr>fperiod := fp, iperiod := f2i fp,
            edgepos := (if ng_dphase s tnext > 0 then edgepos s - bangbang else edgepos s + bangbang)\<rparr>)"

text \<open>
  The condition of the inner \<^verbatim>\<open>while\<close>, with \<open>tnext = edges[nedge]\<close>:
  \<^verbatim>\<open>(tnext + center < edgepos) && (nedge < edgemax)\<close>.
\<close>

definition ng_more :: "int \<Rightarrow> ng_frame \<Rightarrow> bool" where
  "ng_more center s \<longleftrightarrow> edges s ! nedge s + center < edgepos s \<and> int (nedge s) < edgemax s"

text \<open>The visit of the edge \<open>edges[nedge]\<close> when the correction block runs.\<close>

definition ng_corrected :: "ng_frame \<Rightarrow> ng_frame" where
  "ng_corrected s = ng_correct (visit False True s) (edges s ! nedge s)"

text \<open>
  The inner \<^verbatim>\<open>while\<close>. On a period below the Nyquist floor it sets \<open>nedge\<close> to the
  number of edges and breaks.
\<close>

function ng_inner :: "int \<Rightarrow> ng_frame \<Rightarrow> ng_frame" where
  "ng_inner center s =
     (if ng_more center s then
        (if tlast s \<noteq> 0 then
           (let s1 = ng_corrected s
            in if iperiod s1 < fnyquist s1 then s1\<lparr>nedge := length (edges s1)\<rparr>
               else ng_inner center (next_edge (edges s ! nedge s) s1))
         else ng_inner center (next_edge (edges s ! nedge s) (visit False False s)))
      else s)"
  by pat_completeness auto
termination
  by (relation "measure (\<lambda>(center, s). nat (edgemax s) - nedge s)")
    (auto simp: ng_more_def ng_corrected_def next_edge_def ng_correct_def visit_def edgemax_def Let_def)

declare ng_inner.simps [simp del]

definition ng_cond :: "ng_frame \<Rightarrow> bool" where
  "ng_cond s \<longleftrightarrow> edgepos s < tend s \<and> int (nedge s) < edgemax s"

definition ng_body :: "ng_frame \<Rightarrow> ng_frame" where
  "ng_body s =
     (let center = iperiod s sdiv 2;
          s1 = ng_inner center s;
          s2 = push_offset (edgepos s1 + center) s1
      in s2\<lparr>edgepos := edgepos s2 + iperiod s2\<rparr>)"

definition ng_init :: "pll_call \<Rightarrow> ng_frame" where
  "ng_init c =
     \<lparr>edges = edges c, tend = tend c, initialPeriod = initialPeriod c,
      halfPeriod = halfPeriod c, fnyquist = fnyquist c,
      nedge = 1, edgepos = edges c ! 0, tlast = 0, offsets = [], visits = [],
      iperiod = initialPeriod c, fperiod = i2f (initialPeriod c)\<rparr>"

text \<open>
  The whole function. \<open>None\<close>: the \<^verbatim>\<open>for\<close> loop never exits. \<^verbatim>\<open>edges[0]\<close> of an empty
  vector is undefined behaviour, reported as an error.
\<close>

definition InnerLoopWithNoGating :: "pll_call \<Rightarrow> (pll_error + ng_frame) option" where
  "InnerLoopWithNoGating c =
     (if edges c = [] then Some (Inl EdgeIndexOutOfRange)
      else map_option Inr (while_option ng_cond ng_body (ng_init c)))"

section \<open>InnerLoopWithGating\<close>

text \<open>
  The gate waveform is read through \<^verbatim>\<open>size()\<close>, \<^verbatim>\<open>GetOffsetScaled\<close>,
  \<^verbatim>\<open>GetDurationScaled\<close> and \<^verbatim>\<open>GetValue\<close>, which are declared outside these sources;
  they are the fields of \<open>gate_waveform\<close>. A call of an accessor with an index that is
  not below \<open>gate_size\<close> reads outside the waveform's buffers.
\<close>

record gate_waveform =
  gate_size :: nat
  GetOffsetScaled :: "nat \<Rightarrow> int"
  GetDurationScaled :: "nat \<Rightarrow> int"
  GetValue :: "nat \<Rightarrow> bool"

record g_frame = pll_frame +
  igate :: nat
  period :: int
  gating :: bool
  gate :: "gate_waveform option"

text \<open>
  The intervals between the next real edges, at most 512 of them:
  \<^verbatim>\<open>for(size_t i=1; i<=512; i++) { if(i + nedge >= edges.size()) break; ... }\<close>
\<close>

definition collect_lengths :: "int list \<Rightarrow> nat \<Rightarrow> int list" where
  "collect_lengths es n =
     map (\<lambda>i. es ! (n + i) - es ! (n + i - 1)) (takeWhile (\<lambda>i. i + n < length es) [1..<513])"

definition near_median :: "int \<Rightarrow> int \<Rightarrow> bool" where
  \<comment> \<open>\<^verbatim>\<open>(w >= 0.75*median) && (w <= 1.25*median)\<close>, in \<^verbatim>\<open>double\<close>\<close>
  "near_median median w \<longleftrightarrow>
     f64 (d_0_75 * i2d median) \<le> i2d w \<and> i2d w \<le> f64 (d_1_25 * i2d median)"

text \<open>
  The reset of the PLL when the clock just got ungated. Indexing the empty vector and
  the integer division by zero are undefined behaviour, reported as errors.
\<close>

definition reacquire :: "g_frame \<Rightarrow> pll_error + g_frame" where
  "reacquire s =
     (let lengths = sort (collect_lengths (edges s) (nedge s))
      in if lengths = [] then Inl EmptyLengths
         else
           (let median = lengths ! (length lengths div 2);
                near = filter (near_median median) lengths;
                sum = sum_list near;
                navg = int (length near)
            in if navg = 0 then Inl DivisionByZero
               else
                 (let avg = sum sdiv navg;
                      tnext = edges s ! nedge s
                  in Inr (s\<lparr>period := avg, initialPeriod := avg, halfPeriod := avg sdiv 2,
                            edgepos := tnext + avg\<rparr>))))"

text \<open>
  The search for the gate sample that holds the current edge position:
  \<^verbatim>\<open>while(igate < gate->size()-1) { ... }\<close>. \<open>gate_more\<close> is its condition, \<open>gate_a\<close> and
  \<open>gate_b\<close> are the bounds \<^verbatim>\<open>a\<close> and \<^verbatim>\<open>b\<close> of the sample at the cursor, and \<open>aligned\<close> is
  the branch taken when the edge position lies within them.
\<close>

definition gate_more :: "gate_waveform \<Rightarrow> g_frame \<Rightarrow> bool" where
  "gate_more g s \<longleftrightarrow> int (igate s) < size_dec (gate_size g)"

definition gate_a :: "gate_waveform \<Rightarrow> g_frame \<Rightarrow> int" where
  "gate_a g s = GetOffsetScaled g (igate s)"

definition gate_b :: "gate_waveform \<Rightarrow> g_frame \<Rightarrow> int" where
  "gate_b g s = gate_a g s + GetDurationScaled g (igate s)"

definition aligned :: "bool \<Rightarrow> gate_waveform \<Rightarrow> g_frame \<Rightarrow> pll_error + g_frame" where
  "aligned was_gating g s =
     (let s1 = s\<lparr>gating := \<not> GetValue g (igate s)\<rparr>
      in if \<not> gating s1 \<and> was_gating then reacquire s1 else Inr s1)"

function gate_scan :: "bool \<Rightarrow> gate_waveform \<Rightarrow> g_frame \<Rightarrow> pll_error + g_frame" where
  "gate_scan was_gating g s =
     (if gate_more g s then
        (if gate_size g \<le> igate s then Inl GateIndexOutOfRange
         else if edgepos s < gate_a g s then Inr s
         else if edgepos s > gate_b g s then gate_scan was_gating g (s\<lparr>igate := igate s + 1\<rparr>)
         else aligned was_gating g s)
      else Inr s)"
  by pat_completeness auto
termination
  by (relation "measure (\<lambda>(w, g, s). gate_size g - igate s)") auto

declare gate_scan.simps [simp del]

text \<open>The phase error, wrapped once each way by the period.\<close>

definition g_dphase :: "g_frame \<Rightarrow> int \<Rightarrow> int" where
  "g_dphase s tnext =
     (let dphase = (edgepos s - tnext) - period s;
          dphase = (if dphase > halfPeriod s then dphase - period s else dphase);
          dphase = (if dphase < - halfPeriod s then dphase + period s else dphase)
      in dphase)"

definition g_numUIs :: "g_frame \<Rightarrow> int \<Rightarrow> rat" where
  \<comment> \<open>\<^verbatim>\<open>float numUIs = round(uiLen * 1.0 / initialPeriod);\<close>\<close>
  "g_numUIs s tnext = f32 (cround (f64 (f64 (i2d (tnext - tlast s) * 1) / i2d (initialPeriod s))))"

text \<open>The frequency error \<^verbatim>\<open>dperiod\<close>; \<open>uiLen /= numUIs\<close> divides as \<^verbatim>\<open>float\<close>.\<close>

definition g_dperiod :: "g_frame \<Rightarrow> int \<Rightarrow> int" where
  "g_dperiod s tnext =
     (let uiLen = tnext - tlast s;
          numUIs = g_numUIs s tnext;
          uiLen = (if numUIs < d_0_1 then period s else f2i (f32 (i2f uiLen / numUIs)))
      in period s - uiLen)"

definition g_correct :: "g_frame \<Rightarrow> int \<Rightarrow> g_frame" where
  "g_correct s tnext =
     (let dphase = g_dphase s tnext;
          dperiod = g_dperiod s tnext;
          p = f2i (f64 (i2d (period s) - f64 (i2d dperiod * d_0_006)));
          p = f2i (f64 (i2d p - f64 (i2d dphase * d_0_002)))
      in s\<lparr>period := p,
            edgepos := (if dphase > 0 then edgepos s - p sdiv 400 else edgepos s + p sdiv 400)\<rparr>)"

text \<open>
  The condition of the inner \<^verbatim>\<open>while\<close> of the gated loop,
  \<^verbatim>\<open>(tnext + center < edgepos) && (nedge+1 < edges.size())\<close>. \<open>center\<close> is a \<^verbatim>\<open>float\<close>
  here, so the sum and the comparison are carried out in \<^verbatim>\<open>float\<close>.
\<close>

definition g_more :: "rat \<Rightarrow> g_frame \<Rightarrow> bool" where
  "g_more center s \<longleftrightarrow>
     f32 (i2f (edges s ! nedge s) + center) < i2f (edgepos s) \<and> nedge s + 1 < length (edges s)"

definition g_corrected :: "g_frame \<Rightarrow> g_frame" where
  "g_corrected s = g_correct (visit False True s) (edges s ! nedge s)"

function g_inner :: "rat \<Rightarrow> g_frame \<Rightarrow> g_frame" where
  "g_inner center s =
     (if g_more center s then
        (if \<not> gating s then
           (if tlast s \<noteq> 0 then
              (let s1 = g_corrected s
               in if period s1 < fnyquist s1 then s1\<lparr>nedge := length (edges s1)\<rparr>
                  else g_inner center (next_edge (edges s ! nedge s) s1))
            else g_inner center (next_edge (edges s ! nedge s) (visit False False s)))
         else g_inner center (next_edge (edges s ! nedge s) (visit True False s)))
      else s)"
  by pat_completeness auto
termination
  by (relation "measure (\<lambda>(center, s). length (edges s) - nedge s)")
    (auto simp: g_more_def g_corrected_def next_edge_def g_correct_def visit_def Let_def)

declare g_inner.simps [simp del]

definition g_cond :: "g_frame \<Rightarrow> bool" where
  "g_cond s \<longleftrightarrow> edgepos s < tend s \<and> int (nedge s) < size_dec (length (edges s))"

text \<open>
  One iteration of the \<^verbatim>\<open>for\<close> loop: the gate search (skipped without a gate), the
  inner loop, the output sample unless gated, and the increment \<^verbatim>\<open>edgepos += period\<close>.
\<close>

definition g_scan :: "g_frame \<Rightarrow> pll_error + g_frame" where
  "g_scan s = (case gate s of None \<Rightarrow> Inr s | Some g \<Rightarrow> gate_scan (gating s) g s)"

definition g_emit :: "g_frame \<Rightarrow> g_frame" where
  "g_emit s =
     (let s3 = (if \<not> gating s then push_offset (edgepos s + period s sdiv 2) s else s)
      in s3\<lparr>edgepos := edgepos s3 + period s3\<rparr>)"

definition g_body :: "g_frame \<Rightarrow> pll_error + g_frame" where
  "g_body s =
     (let center = i2f (period s sdiv 2)
      in case g_scan s of
           Inl e \<Rightarrow> Inl e
         | Inr s1 \<Rightarrow> Inr (g_emit (g_inner center s1)))"

definition g_init :: "pll_call \<Rightarrow> gate_waveform option \<Rightarrow> g_frame" where
  "g_init c gt =
     \<lparr>edges = edges c, tend = tend c, initialPeriod = initialPeriod c,
      halfPeriod = halfPeriod c, fnyquist = fnyquist c,
      nedge = 1, edgepos = edges c ! 0, tlast = 0, offsets = [], visits = [],
      igate = 0, period = initialPeriod c,
      gating = (case gt of None \<Rightarrow> False
                | Some g \<Rightarrow> if gate_size g \<noteq> 0 then \<not> GetValue g 0 else False),
      gate = gt\<rparr>"

text \<open>The state of the \<^verbatim>\<open>for\<close> loop is a frame, or the error that stopped the run.\<close>

definition g_continue :: "pll_error + g_frame \<Rightarrow> bool" where
  "g_continue r = (case r of Inl e \<Rightarrow> False | Inr s \<Rightarrow> g_cond s)"

definition g_step :: "pll_error + g_frame \<Rightarrow> pll_error + g_frame" where
  "g_step r = (case r of Inl e \<Rightarrow> Inl e | Inr s \<Rightarrow> g_body s)"

definition InnerLoopWithGating ::
  "pll_call \<Rightarrow> gate_waveform option \<Rightarrow> (pll_error + g_frame) option" where
  "InnerLoopWithGating c gt =
     (if edges c = [] then Some (Inl EdgeIndexOutOfRange)
      else while_option g_continue g_step (Inr (g_init c gt)))"

section \<open>Refresh\<close>

text \<open>
  What \<^verbatim>\<open>Refresh\<close> obtains from code outside these sources is its input here: whether
  \<^verbatim>\<open>VerifyInputOK(0)\<close> holds, the edges \<^verbatim>\<open>FindZeroCrossings\<close> found (none when the input
  is of no supported kind), the nominal period \<^verbatim>\<open>round(FS_PER_SECOND / rate)\<close>, the
  input's timescale, the scaled time of its last sample, the gate waveform if there
  is one, and \<^verbatim>\<open>g_hasAvx2\<close>.
\<close>

record refresh_input =
  input_ok :: bool
  crossings :: "int list"
  nominal_period :: int
  m_timescale :: int
  last_sample_time :: int
  gate_input :: "gate_waveform option"
  g_hasAvx2 :: bool

text \<open>\<open>NoData\<close> is \<^verbatim>\<open>SetData(nullptr, 0)\<close>; \<open>Data cap\<close> is \<^verbatim>\<open>SetData(cap, 0)\<close>.\<close>

datatype refresh_output = NoData | Data SparseDigitalWaveform

definition refresh_call :: "refresh_input \<Rightarrow> pll_call" where
  "refresh_call r =
     \<lparr>edges = crossings r, tend = last_sample_time r, initialPeriod = nominal_period r,
      halfPeriod = nominal_period r sdiv 2, fnyquist = 2 * m_timescale r\<rparr>"

definition run_pll :: "refresh_input \<Rightarrow> (pll_error + int list) option" where
  "run_pll r =
     (case gate_input r of
        Some g \<Rightarrow> map_option (map_sum id offsets) (InnerLoopWithGating (refresh_call r) (Some g))
      | None \<Rightarrow> map_option (map_sum id offsets) (InnerLoopWithNoGating (refresh_call r)))"

text \<open>
  \<^verbatim>\<open>FillDurationsGeneric\<close> and \<^verbatim>\<open>FillDurationsAVX2\<close> are not part of these sources; the
  durations stay empty in the model.
\<close>

definition fill_squarewave :: "bool \<Rightarrow> int list \<Rightarrow> SparseDigitalWaveform" where
  "fill_squarewave avx2 offs =
     (let cap = \<lparr>m_offsets = offs, m_durations = [], m_samples = []\<rparr>
      in if avx2 then FillSquarewaveAVX2 cap else FillSquarewaveGeneric cap)"

definition Refresh :: "refresh_input \<Rightarrow> (pll_error + refresh_output) option" where
  "Refresh r =
     (if \<not> input_ok r then Some (Inr NoData)
      else if crossings r = [] then Some (Inr NoData)
      else if nominal_period r < 2 * m_timescale r then Some (Inr NoData)
      else map_option (map_sum id (\<lambda>offs. Data (fill_squarewave (g_hasAvx2 r) offs))) (run_pll r))"

section \<open>Invariants and measures\<close>

text \<open>
  What the \<^verbatim>\<open>for\<close> loop of \<open>InnerLoopWithNoGating\<close> keeps true of its frame: the arguments
  stay as passed, \<open>nedge\<close> stays within the edges, and the period is at or above the
  Nyquist floor unless the inner loop has set \<open>nedge\<close> to the number of edges.
\<close>

definition ng_inv :: "pll_call \<Rightarrow> ng_frame \<Rightarrow> bool" where
  "ng_inv c s \<longleftrightarrow>
     edges s = edges c \<and> fnyquist s = fnyquist c \<and> tend s = tend c \<and>
     nedge s \<le> length (edges c) \<and>
     (fnyquist c \<le> iperiod s \<or> nedge s = length (edges c))"

text \<open>
  \<open>gate_rank\<close> bounds the work the gate can still cause: the samples not yet passed,
  counted twice, plus one while the gate state disagrees with the sample at the cursor.
\<close>

definition gate_rank :: "gate_waveform option \<Rightarrow> g_frame \<Rightarrow> nat" where
  "gate_rank gt s =
     (case gt of None \<Rightarrow> 0
      | Some g \<Rightarrow> 2 * (gate_size g - igate s) + (if gating s = GetValue g (igate s) then 1 else 0))"

definition scan_post :: "gate_waveform \<Rightarrow> g_frame \<Rightarrow> pll_error + g_frame \<Rightarrow> bool" where
  "scan_post g s r =
     (case r of Inl e \<Rightarrow> True
      | Inr s' \<Rightarrow>
          edges s' = edges s \<and> tend s' = tend s \<and> fnyquist s' = fnyquist s \<and> gate s' = gate s \<and>
          nedge s' = nedge s \<and> tlast s' = tlast s \<and> visits s' = visits s \<and>
          offsets s' = offsets s \<and> igate s \<le> igate s' \<and> igate s' < gate_size g \<and>
          (period s' = period s \<and> edgepos s' = edgepos s \<and>
             gate_rank (Some g) s' \<le> gate_rank (Some g) s \<or>
           gate_rank (Some g) s' < gate_rank (Some g) s \<and>
             (sorted_wrt (<) (edges s) \<longrightarrow> 1 \<le> period s')))"

text \<open>
  What the \<^verbatim>\<open>for\<close> loop of \<open>InnerLoopWithGating\<close> keeps true of its frame; the period is
  positive only, because a reacquisition does not check the Nyquist floor.
\<close>

definition g_inv :: "pll_call \<Rightarrow> gate_waveform option \<Rightarrow> g_frame \<Rightarrow> bool" where
  "g_inv c gt s \<longleftrightarrow>
     edges s = edges c \<and> fnyquist s = fnyquist c \<and> tend s = tend c \<and> gate s = gt \<and>
     nedge s \<le> length (edges c) \<and>
     (1 \<le> period s \<or> nedge s = length (edges c)) \<and>
     (case gt of None \<Rightarrow> True | Some g \<Rightarrow> igate s < gate_size g \<or> gate_size g = 0 \<and> igate s = 0)"

definition g_rel :: "pll_call \<Rightarrow> gate_waveform option \<Rightarrow> (g_frame \<times> g_frame) set" where
  "g_rel c gt =
     measures [gate_rank gt, \<lambda>s. length (edges c) - nedge s, \<lambda>s. nat (tend c - edgepos s)]"

definition on_frame :: "(g_frame \<Rightarrow> nat) \<Rightarrow> pll_error + g_frame \<Rightarrow> nat" where
  "on_frame f r = (case r of Inl e \<Rightarrow> 0 | Inr s \<Rightarrow> f s)"

definition g_ok :: "pll_call \<Rightarrow> gate_waveform option \<Rightarrow> pll_error + g_frame \<Rightarrow> bool" where
  "g_ok c gt r = (case r of Inl e \<Rightarrow> True | Inr s \<Rightarrow> g_inv c gt s)"

text \<open>
  The rule the record of visits follows when no real edge after the first has the
  timestamp 0: the correction block ran at a visit exactly when the loop was not gated
  and the visit was not the first one.
\<close>

fun rule_from :: "bool \<Rightarrow> (nat \<times> bool \<times> bool) list \<Rightarrow> bool" where
  "rule_from first [] = True"
| "rule_from first ((k, gated, corrected) # vs) =
     (corrected = (\<not> gated \<and> \<not> first) \<and> rule_from False vs)"

definition corrected_rule :: "(nat \<times> bool \<times> bool) list \<Rightarrow> bool" where
  "corrected_rule vs = rule_from True vs"

definition never_gated :: "(nat \<times> bool \<times> bool) list \<Rightarrow> bool" where
  "never_gated vs = list_all (\<lambda>(k, gated, corrected). \<not> gated) vs"

definition no_zero_edge :: "int list \<Rightarrow> bool" where
  "no_zero_edge es \<longleftrightarrow> 0 \<notin> set (tl es)"

definition vis_inv :: "int list \<Rightarrow> 'a pll_frame_scheme \<Rightarrow> bool" where
  "vis_inv es s \<longleftrightarrow>
     edges s = es \<and> 1 \<le> nedge s \<and> (tlast s = 0 \<longleftrightarrow> visits s = []) \<and> corrected_rule (visits s)"

section \<open>Concrete runs\<close>

text \<open>
  A clock of nominal period 1000 fs on an input whose Nyquist floor is 1000 fs, with two
  real edges 100 fs apart: the third iteration visits both, and the correction for the
  second one brings the period to 999 fs. \<open>c3_ng_head\<close> and \<open>c3_g_head\<close> are the
  frames of the two loops at the head of that iteration, \<open>c3_ng_step\<close> and \<open>c3_g_step\<close>
  the frames before the visit of the second edge.
\<close>

definition c3_call :: pll_call where
  "c3_call = \<lparr>edges = [0, 600, 700, 5000], tend = 10000, initialPeriod = 1000,
     halfPeriod = 500, fnyquist = 1000\<rparr>"

definition c3_ng_head :: ng_frame where
  "c3_ng_head = \<lparr>edges = [0, 600, 700, 5000], tend = 10000, initialPeriod = 1000,
     halfPeriod = 500, fnyquist = 1000, nedge = 1, edgepos = 2000, tlast = 0,
     offsets = [500, 1500], visits = [], iperiod = 1000, fperiod = 1000\<rparr>"

definition c3_ng_step :: ng_frame where
  "c3_ng_step = \<lparr>edges = [0, 600, 700, 5000], tend = 10000, initialPeriod = 1000,
     halfPeriod = 500, fnyquist = 1000, nedge = 2, edgepos = 2000, tlast = 600,
     offsets = [500, 1500], visits = [(1, False, False)], iperiod = 1000, fperiod = 1000\<rparr>"

definition c3_g_head :: g_frame where
  "c3_g_head = \<lparr>edges = [0, 600, 700, 5000], tend = 10000, initialPeriod = 1000,
     halfPeriod = 500, fnyquist = 1000, nedge = 1, edgepos = 2000, tlast = 0,
     offsets = [500, 1500], visits = [], igate = 0, period = 1000, gating = False, gate = None\<rparr>"

definition c3_g_step :: g_frame where
  "c3_g_step = \<lparr>edges = [0, 600, 700, 5000], tend = 10000, initialPeriod = 1000,
     halfPeriod = 500, fnyquist = 1000, nedge = 2, edgepos = 2000, tlast = 600,
     offsets = [500, 1500], visits = [(1, False, False)], igate = 0, period = 1000,
     gating = False, gate = None\<rparr>"

text \<open>The frame in which \<open>InnerLoopWithNoGating\<close> ends on these arguments.\<close>

definition c3_ng_final :: ng_frame where
  "c3_ng_final = \<lparr>edges = [0, 600, 700, 5000], tend = 10000, initialPeriod = 1000,
     halfPeriod = 500, fnyquist = 1000, nedge = 4, edgepos = 2997, tlast = 600,
     offsets = [500, 1500, 2498], visits = [(1, False, False), (2, False, True)],
     iperiod = 999, fperiod = 8187085 / 8192\<rparr>"

text \<open>
  The same edges under a gate whose single sample is low: the loop is gated throughout.
  \<open>c8_final\<close> is the frame in which it ends.
\<close>

definition c8_call :: pll_call where
  "c8_call = \<lparr>edges = [0, 600, 700, 5000], tend = 3000, initialPeriod = 1000,
     halfPeriod = 500, fnyquist = 2\<rparr>"

definition gate_low :: gate_waveform where
  "gate_low = \<lparr>gate_size = 1, GetOffsetScaled = (\<lambda>i. 0), GetDurationScaled = (\<lambda>i. 10000),
     GetValue = (\<lambda>i. False)\<rparr>"

definition c8_final :: g_frame where
  "c8_final = \<lparr>edges = [0, 600, 700, 5000], tend = 3000, initialPeriod = 1000,
     halfPeriod = 500, fnyquist = 2, nedge = 3, edgepos = 3000, tlast = 700,
     offsets = [], visits = [(1, True, False), (2, True, False)], igate = 0, period = 1000,
     gating = True, gate = Some gate_low\<rparr>"

text \<open>
  The frame of that run at the head of its third iteration, after the gate search: the
  inner loop then visits both real edges while gated.
\<close>

definition c8_head :: g_frame where
  "c8_head = \<lparr>edges = [0, 600, 700, 5000], tend = 3000, initialPeriod = 1000,
     halfPeriod = 500, fnyquist = 2, nedge = 1, edgepos = 2000, tlast = 0,
     offsets = [], visits = [], igate = 0, period = 1000, gating = True, gate = Some gate_low\<rparr>"

text \<open>A gate waveform with no samples.\<close>

definition gate_empty :: gate_waveform where
  "gate_empty = \<lparr>gate_size = 0, GetOffsetScaled = (\<lambda>i. 0), GetDurationScaled = (\<lambda>i. 0),
     GetValue = (\<lambda>i. False)\<rparr>"

text \<open>
  An input sampled every 100 ps (Nyquist floor 200000 fs), nominal period 800000 fs. The
  gate is low for the first 2 ns and high afterwards; the real edges after the gate
  opens are 100000 fs apart. \<open>c10_frame\<close> is the frame after four iterations.
\<close>

definition c10_call :: pll_call where
  "c10_call = \<lparr>edges = [0, 2400000, 2500000, 2600000, 2700000], tend = 4000000,
     initialPeriod = 800000, halfPeriod = 400000, fnyquist = 200000\<rparr>"

definition c10_gate :: gate_waveform where
  "c10_gate = \<lparr>gate_size = 3, GetOffsetScaled = (\<lambda>i. [0, 2000001, 12000001] ! i),
     GetDurationScaled = (\<lambda>i. [2000000, 10000000, 1] ! i),
     GetValue = (\<lambda>i. [False, True, False] ! i)\<rparr>"

definition c10_frame :: g_frame where
  "c10_frame = \<lparr>edges = [0, 2400000, 2500000, 2600000, 2700000], tend = 4000000,
     initialPeriod = 100000, halfPeriod = 50000, fnyquist = 200000, nedge = 1,
     edgepos = 2600000, tlast = 0, offsets = [2550000], visits = [], igate = 1,
     period = 100000, gating = False, gate = Some c10_gate\<rparr>"

text \<open>
  The same input with the real edges after the gate opens all at one timestamp.
\<close>

definition c10_dup_call :: pll_call where
  "c10_dup_call = \<lparr>edges = [0, 2400000, 2400000, 2400000], tend = 4000000,
     initialPeriod = 800000, halfPeriod = 400000, fnyquist = 200000\<rparr>"

text \<open>
  The frame in which the gated loop stays on \<open>c10_dup_call\<close> under \<open>c10_gate\<close>, with the
  offsets pushed so far.
\<close>

definition c10_stuck :: "int list \<Rightarrow> g_frame" where
  "c10_stuck xs = \<lparr>edges = [0, 2400000, 2400000, 2400000], tend = 4000000,
     initialPeriod = 0, halfPeriod = 0, fnyquist = 200000, nedge = 1,
     edgepos = 2400000, tlast = 0, offsets = xs, visits = [], igate = 1,
     period = 0, gating = False, gate = Some c10_gate\<rparr>"

text \<open>
  An input sampled every 20 ps (Nyquist floor 40000 fs), nominal period 800000 fs, about
  1.1 ms into the record: the first edge is at \<open>2\<^sup>4\<^sup>0\<close> fs, where neighbouring \<^verbatim>\<open>float\<close>
  values are 131072 fs apart. The gate is high, then low from 400001 fs to 1200001 fs
  after the first edge, then high again; the later edges are 40000 fs apart.
\<close>

definition c6_call :: pll_call where
  "c6_call = \<lparr>edges = [1099511627776, 1099511962776, 1099512002776, 1099512042776],
     tend = 1099513327776, initialPeriod = 800000, halfPeriod = 400000, fnyquist = 40000\<rparr>"

definition c6_gate :: gate_waveform where
  "c6_gate = \<lparr>gate_size = 4,
     GetOffsetScaled = (\<lambda>i. [1099511627766, 1099512027777, 1099512827777, 1099516627776] ! i),
     GetDurationScaled = (\<lambda>i. [400010, 800000, 2000000, 1] ! i),
     GetValue = (\<lambda>i. [True, False, True, False] ! i)\<rparr>"

text \<open>Inputs of \<open>Refresh\<close>: one without any crossing, one with a single crossing.\<close>

definition c7_no_edge :: refresh_input where
  "c7_no_edge = \<lparr>input_ok = True, crossings = [], nominal_period = 800000, m_timescale = 100000,
     last_sample_time = 5000000, gate_input = None, g_hasAvx2 = False\<rparr>"

definition c7_one_edge :: refresh_input where
  "c7_one_edge = \<lparr>input_ok = True, crossings = [1000], nominal_period = 800000,
     m_timescale = 100000, last_sample_time = 5000000, gate_input = None, g_hasAvx2 = False\<rparr>"

section \<open>Properties of the squarewave fill\<close>

lemma length_fill_scalar [simp]: "length (fill_scalar i len v xs) = length xs"
proof (induction i len v xs rule: fill_scalar.induct)
  case (1 i len v xs)
  then show ?case by (cases "i < len") (simp_all add: fill_scalar.simps [of i len v xs])
qed

lemma fill_scalar_nth:
  "len \<le> length xs \<Longrightarrow> k < length xs \<Longrightarrow>
   fill_scalar i len v xs ! k =
     (if i \<le> k \<and> k < len then (if even (k - i) then \<not> v else v) else xs ! k)"
proof (induction i len v xs arbitrary: k rule: fill_scalar.induct)
  case (1 i len v xs)
  show ?case
  proof (cases "i < len")
    case False
    then show ?thesis by (auto simp: fill_scalar.simps [of i len v xs])
  next
    case True
    have step: "fill_scalar i len v xs = fill_scalar (i + 1) len (\<not> v) (xs[i := \<not> v])"
      using True by (simp add: fill_scalar.simps [of i len v xs])
    have ih: "fill_scalar (i + 1) len (\<not> v) (xs[i := \<not> v]) ! k =
        (if i + 1 \<le> k \<and> k < len then (if even (k - (i + 1)) then \<not> \<not> v else \<not> v)
         else (xs[i := \<not> v]) ! k)"
      using "1.IH" [OF True, of k] "1.prems" by simp
    show ?thesis
    proof (cases "k = i")
      case True
      then show ?thesis using step ih \<open>i < len\<close> "1.prems" by simp
    next
      case False
      then show ?thesis using step ih "1.prems"
        by (auto simp: Suc_diff_le)
    qed
  qed
qed

text \<open>
  The scalar fill writes \<open>True\<close> at even and \<open>False\<close> at odd indices, for every number of
  output edges: the alternation starting \<open>True\<close> that the data model asks for.
\<close>

lemma FillSquarewaveGeneric_nth:
  "k < length (m_offsets cap) \<Longrightarrow> m_samples (FillSquarewaveGeneric cap) ! k = even k"
  by (simp add: FillSquarewaveGeneric_def Let_def resize_def fill_scalar_nth)

lemma FillSquarewaveGeneric_length:
  "length (m_samples (FillSquarewaveGeneric cap)) = length (m_offsets cap)"
  by (simp add: FillSquarewaveGeneric_def Let_def resize_def)

text \<open>Below the block width the AVX2 path runs the scalar loop only, and agrees.\<close>

lemma FillSquarewaveAVX2_short:
  "length (m_offsets cap) < 32 \<Longrightarrow> FillSquarewaveAVX2 cap = FillSquarewaveGeneric cap"
  by (cases "length (m_offsets cap) = 0")
    (simp_all add: FillSquarewaveAVX2_def FillSquarewaveGeneric_def Let_def
      fill_blocks.simps [of 0 0] fill_scalar.simps [of 0 0])

text \<open>
  C1. The AVX2 fill is documented as an optimised version of the scalar fill and is
  required to produce the identical sample sequence for every length. At exactly one
  block (32 output edges) it does not: the stored pattern starts with \<open>False\<close>, the
  scalar fill starts with \<open>True\<close>, so the two sample buffers differ.
\<close>

theorem FillSquarewaveAVX2_differs_at_32:
  "m_samples (FillSquarewaveAVX2 (cap_of_len 32)) = filler \<and>
   m_samples (FillSquarewaveGeneric (cap_of_len 32)) = map Not filler \<and>
   FillSquarewaveAVX2 (cap_of_len 32) \<noteq> FillSquarewaveGeneric (cap_of_len 32)"
proof -
  have a: "m_samples (FillSquarewaveAVX2 (cap_of_len 32)) = filler"
    by code_simp
  have g: "m_samples (FillSquarewaveGeneric (cap_of_len 32)) = map Not filler"
    by code_simp
  have "filler \<noteq> map Not filler"
    by (simp add: filler_def)
  with a g show ?thesis by metis
qed

text \<open>
  C2. The output samples have to alternate starting \<open>True\<close> at index 0 on either path.
  With 33 output edges the AVX2 path starts with \<open>False\<close>, and its samples 31 and 32
  are both \<open>True\<close>: the block pattern ends on \<open>True\<close> and the scalar tail restarts on
  \<open>True\<close>.
\<close>

theorem FillSquarewaveAVX2_33_not_alternating:
  "m_samples (FillSquarewaveAVX2 (cap_of_len 33)) ! 0 = False \<and>
   m_samples (FillSquarewaveAVX2 (cap_of_len 33)) ! 31 = True \<and>
   m_samples (FillSquarewaveAVX2 (cap_of_len 33)) ! 32 = True"
  by code_simp

section \<open>Properties of the two inner loops\<close>

lemma size_dec_pos: "0 < n \<Longrightarrow> size_dec n = int n - 1"
  by (simp add: size_dec_def)

subsection \<open>The inner loop of InnerLoopWithNoGating, one step at a time\<close>

lemma ng_inner_exit: "\<not> ng_more center s \<Longrightarrow> ng_inner center s = s"
  by (subst ng_inner.simps) simp

lemma ng_inner_skip:
  "ng_more center s \<Longrightarrow> tlast s = 0 \<Longrightarrow>
   ng_inner center s = ng_inner center (next_edge (edges s ! nedge s) (visit False False s))"
  by (subst ng_inner.simps) simp

lemma ng_inner_abort:
  "ng_more center s \<Longrightarrow> tlast s \<noteq> 0 \<Longrightarrow> iperiod (ng_corrected s) < fnyquist (ng_corrected s) \<Longrightarrow>
   ng_inner center s = (ng_corrected s)\<lparr>nedge := length (edges (ng_corrected s))\<rparr>"
  by (subst ng_inner.simps) (simp add: Let_def)

lemma ng_inner_corr:
  "ng_more center s \<Longrightarrow> tlast s \<noteq> 0 \<Longrightarrow> \<not> iperiod (ng_corrected s) < fnyquist (ng_corrected s) \<Longrightarrow>
   ng_inner center s = ng_inner center (next_edge (edges s ! nedge s) (ng_corrected s))"
  by (subst ng_inner.simps) (simp add: Let_def)

lemma ng_corrected_frame [simp]:
  "edges (ng_corrected s) = edges s" "tend (ng_corrected s) = tend s"
  "fnyquist (ng_corrected s) = fnyquist s" "initialPeriod (ng_corrected s) = initialPeriod s"
  "halfPeriod (ng_corrected s) = halfPeriod s" "nedge (ng_corrected s) = nedge s"
  "tlast (ng_corrected s) = tlast s" "offsets (ng_corrected s) = offsets s"
  "visits (ng_corrected s) = visits s @ [(nedge s, False, True)]"
  by (simp_all add: ng_corrected_def ng_correct_def visit_def Let_def)

lemma visit_frame [simp]:
  "edges (visit g c s) = edges s" "tend (visit g c s) = tend s"
  "fnyquist (visit g c s) = fnyquist s" "initialPeriod (visit g c s) = initialPeriod s"
  "halfPeriod (visit g c s) = halfPeriod s" "nedge (visit g c s) = nedge s"
  "tlast (visit g c s) = tlast s" "offsets (visit g c s) = offsets s"
  "edgepos (visit g c s) = edgepos s"
  "visits (visit g c s) = visits s @ [(nedge s, g, c)]"
  by (simp_all add: visit_def)

lemma next_edge_frame [simp]:
  "edges (next_edge t s) = edges s" "tend (next_edge t s) = tend s"
  "fnyquist (next_edge t s) = fnyquist s" "initialPeriod (next_edge t s) = initialPeriod s"
  "halfPeriod (next_edge t s) = halfPeriod s" "nedge (next_edge t s) = nedge s + 1"
  "tlast (next_edge t s) = t" "offsets (next_edge t s) = offsets s"
  "edgepos (next_edge t s) = edgepos s" "visits (next_edge t s) = visits s"
  by (simp_all add: next_edge_def)

lemma ng_frame_more [simp]:
  "iperiod (visit g c s) = iperiod s" "fperiod (visit g c s) = fperiod s"
  "iperiod (next_edge t s) = iperiod s" "fperiod (next_edge t s) = fperiod s"
  "edgemax (visit g c s) = edgemax s" "edgemax (next_edge t s) = edgemax s"
  "edgemax (ng_corrected s) = edgemax s"
  by (simp_all add: visit_def next_edge_def edgemax_def)

text \<open>An invariant rule for the inner loop: \<open>Q\<close> holds at its head, \<open>R\<close> on leaving it.\<close>

lemma ng_inner_rule:
  assumes init: "Q s"
    and skip: "\<And>s. Q s \<Longrightarrow> ng_more center s \<Longrightarrow> tlast s = 0 \<Longrightarrow>
        Q (next_edge (edges s ! nedge s) (visit False False s))"
    and corr: "\<And>s. Q s \<Longrightarrow> ng_more center s \<Longrightarrow> tlast s \<noteq> 0 \<Longrightarrow>
        \<not> iperiod (ng_corrected s) < fnyquist s \<Longrightarrow>
        Q (next_edge (edges s ! nedge s) (ng_corrected s))"
    and abort: "\<And>s. Q s \<Longrightarrow> ng_more center s \<Longrightarrow> tlast s \<noteq> 0 \<Longrightarrow>
        iperiod (ng_corrected s) < fnyquist s \<Longrightarrow>
        R ((ng_corrected s)\<lparr>nedge := length (edges s)\<rparr>)"
    and exit: "\<And>s. Q s \<Longrightarrow> \<not> ng_more center s \<Longrightarrow> R s"
  shows "R (ng_inner center s)"
  using init
proof (induction "nat (edgemax s) - nedge s" arbitrary: s rule: less_induct)
  case less
  show ?case
  proof (cases "ng_more center s")
    case False
    then show ?thesis using exit [OF less.prems] by (simp add: ng_inner_exit)
  next
    case True
    then have dec: "nat (edgemax s) - (nedge s + 1) < nat (edgemax s) - nedge s"
      by (auto simp: ng_more_def)
    show ?thesis
    proof (cases "tlast s = 0")
      case t: True
      have "R (ng_inner center (next_edge (edges s ! nedge s) (visit False False s)))"
        by (rule less.hyps) (use dec skip [OF less.prems True t] in simp_all)
      then show ?thesis by (simp add: ng_inner_skip [OF True t])
    next
      case t: False
      show ?thesis
      proof (cases "iperiod (ng_corrected s) < fnyquist s")
        case v: True
        then show ?thesis
          using abort [OF less.prems True t v] ng_inner_abort [OF True t] by simp
      next
        case v: False
        have "R (ng_inner center (next_edge (edges s ! nedge s) (ng_corrected s)))"
          by (rule less.hyps) (use dec corr [OF less.prems True t v] in simp_all)
        then show ?thesis using ng_inner_corr [OF True t] v by simp
      qed
    qed
  qed
qed

subsection \<open>What the inner loop keeps and changes\<close>

lemma ng_inner_frame:
  "edges (ng_inner center s) = edges s \<and> tend (ng_inner center s) = tend s \<and>
   fnyquist (ng_inner center s) = fnyquist s \<and> initialPeriod (ng_inner center s) = initialPeriod s \<and>
   halfPeriod (ng_inner center s) = halfPeriod s \<and> offsets (ng_inner center s) = offsets s"
  by (rule ng_inner_rule [where Q = "\<lambda>t. edges t = edges s \<and> tend t = tend s \<and>
        fnyquist t = fnyquist s \<and> initialPeriod t = initialPeriod s \<and>
        halfPeriod t = halfPeriod s \<and> offsets t = offsets s"]) simp_all

lemma ng_inner_nedge_mono:
  assumes "edges s \<noteq> []"
  shows "nedge s \<le> nedge (ng_inner center s)"
proof (rule ng_inner_rule [where Q = "\<lambda>t. nedge s \<le> nedge t \<and> edges t = edges s"])
  fix t assume "nedge s \<le> nedge t \<and> edges t = edges s" "ng_more center t"
  then show "nedge s \<le> nedge ((ng_corrected t)\<lparr>nedge := length (edges t)\<rparr>)"
    using assms by (auto simp: ng_more_def edgemax_def size_dec_def split: if_splits)
qed simp_all

lemma ng_inner_unchanged:
  assumes "edges s \<noteq> []" "nedge (ng_inner center s) = nedge s"
  shows "ng_inner center s = s"
proof -
  have "ng_inner center s = s \<or> nedge s < nedge (ng_inner center s)"
  proof (rule ng_inner_rule [where Q = "\<lambda>t. (t = s \<or> nedge s < nedge t) \<and> edges t = edges s"])
    fix t assume "(t = s \<or> nedge s < nedge t) \<and> edges t = edges s" "ng_more center t"
    then show "(ng_corrected t)\<lparr>nedge := length (edges t)\<rparr> = s \<or>
        nedge s < nedge ((ng_corrected t)\<lparr>nedge := length (edges t)\<rparr>)"
      using assms(1) by (auto simp: ng_more_def edgemax_def size_dec_def)
  qed auto
  with assms(2) show ?thesis by auto
qed

lemma ng_inner_period:
  assumes "fnyquist s \<le> iperiod s"
  shows "fnyquist s \<le> iperiod (ng_inner center s) \<or> nedge (ng_inner center s) = length (edges s)"
  by (rule ng_inner_rule [where Q = "\<lambda>t. fnyquist s \<le> iperiod t \<and> fnyquist t = fnyquist s \<and> edges t = edges s"])
    (use assms in auto)

lemma ng_inner_stopped:
  assumes "nedge s = length (edges s)" "edges s \<noteq> []"
  shows "ng_inner center s = s"
  using assms by (intro ng_inner_exit) (simp add: ng_more_def edgemax_def size_dec_def)

lemma ng_inner_nedge_bound:
  assumes "edges s \<noteq> []" "nedge s \<le> length (edges s)"
  shows "nedge (ng_inner center s) \<le> length (edges s)"
  by (rule ng_inner_rule [where Q = "\<lambda>t. nedge t \<le> length (edges s) \<and> edges t = edges s"])
    (use assms in \<open>auto simp: ng_more_def edgemax_def size_dec_def\<close>)

subsection \<open>The outer loop of InnerLoopWithNoGating\<close>

lemma ng_body_frame:
  "edges (ng_body s) = edges s \<and> tend (ng_body s) = tend s \<and> fnyquist (ng_body s) = fnyquist s \<and>
   initialPeriod (ng_body s) = initialPeriod s \<and> halfPeriod (ng_body s) = halfPeriod s"
  using ng_inner_frame [of "iperiod s sdiv 2" s]
  by (simp add: ng_body_def Let_def push_offset_def)

lemma ng_body_nedge: "nedge (ng_body s) = nedge (ng_inner (iperiod s sdiv 2) s)"
  by (simp add: ng_body_def Let_def push_offset_def)

lemma ng_body_iperiod: "iperiod (ng_body s) = iperiod (ng_inner (iperiod s sdiv 2) s)"
  by (simp add: ng_body_def Let_def push_offset_def)

lemma ng_body_offsets:
  "offsets (ng_body s) =
     offsets s @ [edgepos (ng_inner (iperiod s sdiv 2) s) + iperiod s sdiv 2]"
  using ng_inner_frame [of "iperiod s sdiv 2" s]
  by (simp add: ng_body_def Let_def push_offset_def)

lemma ng_body_visits: "visits (ng_body s) = visits (ng_inner (iperiod s sdiv 2) s)"
  by (simp add: ng_body_def Let_def push_offset_def)

lemma ng_body_edgepos:
  "edgepos (ng_body s) =
     edgepos (ng_inner (iperiod s sdiv 2) s) + iperiod (ng_inner (iperiod s sdiv 2) s)"
  by (simp add: ng_body_def Let_def push_offset_def)

lemma ng_cond_stopped: "edges s \<noteq> [] \<Longrightarrow> nedge s = length (edges s) \<Longrightarrow> \<not> ng_cond s"
  by (simp add: ng_cond_def edgemax_def size_dec_def)

subsection \<open>Termination of InnerLoopWithNoGating\<close>

lemma ng_inv_init:
  "edges c \<noteq> [] \<Longrightarrow> fnyquist c \<le> initialPeriod c \<Longrightarrow> ng_inv c (ng_init c)"
  by (cases "edges c") (simp_all add: ng_inv_def ng_init_def)

lemma ng_inv_body:
  assumes "edges c \<noteq> []" "ng_inv c s"
  shows "ng_inv c (ng_body s)"
proof -
  let ?r = "ng_inner (iperiod s sdiv 2) s"
  from assms have e: "edges s \<noteq> []" "edges s = edges c" "fnyquist s = fnyquist c"
    by (auto simp: ng_inv_def)
  have bound: "nedge ?r \<le> length (edges c)"
    using ng_inner_nedge_bound [OF e(1), of "iperiod s sdiv 2"] assms(2) e(2)
    by (simp add: ng_inv_def)
  have per: "fnyquist c \<le> iperiod ?r \<or> nedge ?r = length (edges c)"
  proof (cases "nedge s = length (edges c)")
    case True
    then show ?thesis using ng_inner_stopped [of s] e by simp
  next
    case False
    then have "fnyquist s \<le> iperiod s" using assms(2) by (simp add: ng_inv_def)
    from ng_inner_period [OF this] show ?thesis using e by simp
  qed
  show ?thesis
    using bound per ng_body_frame [of s] assms(2)
    by (simp add: ng_inv_def ng_body_nedge ng_body_iperiod)
qed

lemma ng_body_decreases:
  assumes "edges c \<noteq> []" "1 \<le> fnyquist c" "ng_inv c s" "ng_cond s"
  shows "(ng_body s, s) \<in> measures [\<lambda>s. length (edges c) - nedge s, \<lambda>s. nat (tend c - edgepos s)]"
proof -
  let ?r = "ng_inner (iperiod s sdiv 2) s"
  from assms have e: "edges s \<noteq> []" "edges s = edges c" "tend s = tend c"
    by (auto simp: ng_inv_def)
  have mono: "nedge s \<le> nedge ?r" by (rule ng_inner_nedge_mono [OF e(1)])
  have bound: "nedge ?r \<le> length (edges c)"
    using ng_inner_nedge_bound [OF e(1), of "iperiod s sdiv 2"] assms(3) e(2)
    by (simp add: ng_inv_def)
  show ?thesis
  proof (cases "nedge ?r = nedge s")
    case False
    with mono bound have "length (edges c) - nedge ?r < length (edges c) - nedge s"
      by linarith
    then show ?thesis by (simp add: ng_body_nedge)
  next
    case True
    then have same: "?r = s" by (rule ng_inner_unchanged [OF e(1)])
    have "nedge s \<noteq> length (edges c)"
      using assms(4) e by (auto simp: ng_cond_def edgemax_def size_dec_def)
    then have "1 \<le> iperiod s" using assms(2,3) by (auto simp: ng_inv_def)
    moreover have "edgepos s < tend c" using assms(4) e by (simp add: ng_cond_def)
    ultimately show ?thesis
      by (simp add: ng_body_nedge ng_body_edgepos same)
  qed
qed

lemma ng_terminates:
  assumes "edges c \<noteq> []" "1 \<le> fnyquist c" "fnyquist c \<le> initialPeriod c"
  shows "\<exists>s. while_option ng_cond ng_body (ng_init c) = Some s"
proof (rule wf_while_option_Some [where P = "ng_inv c"])
  show "wf {(t, s). (ng_inv c s \<and> ng_cond s) \<and> t = ng_body s}"
  proof (rule wf_subset)
    show "wf (measures [\<lambda>s. length (edges c) - nedge s, \<lambda>s::ng_frame. nat (tend c - edgepos s)])"
      by simp
    show "{(t, s). (ng_inv c s \<and> ng_cond s) \<and> t = ng_body s}
        \<subseteq> measures [\<lambda>s. length (edges c) - nedge s, \<lambda>s. nat (tend c - edgepos s)]"
      using ng_body_decreases [OF assms(1,2)] by auto
  qed
  show "\<And>s. ng_inv c s \<Longrightarrow> ng_cond s \<Longrightarrow> ng_inv c (ng_body s)"
    using ng_inv_body [OF assms(1)] by simp
  show "ng_inv c (ng_init c)" by (rule ng_inv_init [OF assms(1,3)])
qed

lemma ng_inv_reached:
  assumes "edges c \<noteq> []" "fnyquist c \<le> initialPeriod c"
  shows "ng_inv c ((ng_body ^^ k) (ng_init c))"
  by (induction k) (simp_all add: ng_inv_init [OF assms] ng_inv_body [OF assms(1)])

lemma ng_period_at_head:
  assumes "edges c \<noteq> []" "fnyquist c \<le> initialPeriod c"
    and "ng_cond ((ng_body ^^ k) (ng_init c))"
  shows "fnyquist c \<le> iperiod ((ng_body ^^ k) (ng_init c))"
  using ng_inv_reached [OF assms(1,2), of k] assms(1,3)
  by (auto simp: ng_inv_def ng_cond_def edgemax_def size_dec_def)

subsection \<open>The inner loop of InnerLoopWithGating, one step at a time\<close>

lemma g_inner_exit: "\<not> g_more center s \<Longrightarrow> g_inner center s = s"
  by (subst g_inner.simps) simp

lemma g_inner_gated:
  "g_more center s \<Longrightarrow> gating s \<Longrightarrow>
   g_inner center s = g_inner center (next_edge (edges s ! nedge s) (visit True False s))"
  by (subst g_inner.simps) simp

lemma g_inner_skip:
  "g_more center s \<Longrightarrow> \<not> gating s \<Longrightarrow> tlast s = 0 \<Longrightarrow>
   g_inner center s = g_inner center (next_edge (edges s ! nedge s) (visit False False s))"
  by (subst g_inner.simps) simp

lemma g_inner_abort:
  "g_more center s \<Longrightarrow> \<not> gating s \<Longrightarrow> tlast s \<noteq> 0 \<Longrightarrow>
   period (g_corrected s) < fnyquist (g_corrected s) \<Longrightarrow>
   g_inner center s = (g_corrected s)\<lparr>nedge := length (edges (g_corrected s))\<rparr>"
  by (subst g_inner.simps) (simp add: Let_def)

lemma g_inner_corr:
  "g_more center s \<Longrightarrow> \<not> gating s \<Longrightarrow> tlast s \<noteq> 0 \<Longrightarrow>
   \<not> period (g_corrected s) < fnyquist (g_corrected s) \<Longrightarrow>
   g_inner center s = g_inner center (next_edge (edges s ! nedge s) (g_corrected s))"
  by (subst g_inner.simps) (simp add: Let_def)

lemma g_corrected_frame [simp]:
  "edges (g_corrected s) = edges s" "tend (g_corrected s) = tend s"
  "fnyquist (g_corrected s) = fnyquist s" "initialPeriod (g_corrected s) = initialPeriod s"
  "halfPeriod (g_corrected s) = halfPeriod s" "nedge (g_corrected s) = nedge s"
  "tlast (g_corrected s) = tlast s" "offsets (g_corrected s) = offsets s"
  "visits (g_corrected s) = visits s @ [(nedge s, False, True)]"
  "igate (g_corrected s) = igate s" "gating (g_corrected s) = gating s"
  "gate (g_corrected s) = gate s"
  by (simp_all add: g_corrected_def g_correct_def visit_def Let_def)

lemma g_frame_more [simp]:
  "period (visit g c s) = period s" "igate (visit g c s) = igate s"
  "gating (visit g c s) = gating s" "gate (visit g c s) = gate s"
  "period (next_edge t s) = period s" "igate (next_edge t s) = igate s"
  "gating (next_edge t s) = gating s" "gate (next_edge t s) = gate s"
  by (simp_all add: visit_def next_edge_def)

lemma g_inner_rule:
  assumes init: "Q s"
    and gated: "\<And>s. Q s \<Longrightarrow> g_more center s \<Longrightarrow> gating s \<Longrightarrow>
        Q (next_edge (edges s ! nedge s) (visit True False s))"
    and skip: "\<And>s. Q s \<Longrightarrow> g_more center s \<Longrightarrow> \<not> gating s \<Longrightarrow> tlast s = 0 \<Longrightarrow>
        Q (next_edge (edges s ! nedge s) (visit False False s))"
    and corr: "\<And>s. Q s \<Longrightarrow> g_more center s \<Longrightarrow> \<not> gating s \<Longrightarrow> tlast s \<noteq> 0 \<Longrightarrow>
        \<not> period (g_corrected s) < fnyquist s \<Longrightarrow>
        Q (next_edge (edges s ! nedge s) (g_corrected s))"
    and abort: "\<And>s. Q s \<Longrightarrow> g_more center s \<Longrightarrow> \<not> gating s \<Longrightarrow> tlast s \<noteq> 0 \<Longrightarrow>
        period (g_corrected s) < fnyquist s \<Longrightarrow>
        R ((g_corrected s)\<lparr>nedge := length (edges s)\<rparr>)"
    and exit: "\<And>s. Q s \<Longrightarrow> \<not> g_more center s \<Longrightarrow> R s"
  shows "R (g_inner center s)"
  using init
proof (induction "length (edges s) - nedge s" arbitrary: s rule: less_induct)
  case less
  show ?case
  proof (cases "g_more center s")
    case False
    then show ?thesis using exit [OF less.prems] by (simp add: g_inner_exit)
  next
    case True
    then have dec: "length (edges s) - (nedge s + 1) < length (edges s) - nedge s"
      by (auto simp: g_more_def)
    show ?thesis
    proof (cases "gating s")
      case g: True
      have "R (g_inner center (next_edge (edges s ! nedge s) (visit True False s)))"
        by (rule less.hyps) (use dec gated [OF less.prems True g] in simp_all)
      then show ?thesis by (simp add: g_inner_gated [OF True g])
    next
      case g: False
      show ?thesis
      proof (cases "tlast s = 0")
        case t: True
        have "R (g_inner center (next_edge (edges s ! nedge s) (visit False False s)))"
          by (rule less.hyps) (use dec skip [OF less.prems True g t] in simp_all)
        then show ?thesis by (simp add: g_inner_skip [OF True g t])
      next
        case t: False
        show ?thesis
        proof (cases "period (g_corrected s) < fnyquist s")
          case v: True
          then show ?thesis
            using abort [OF less.prems True g t v] g_inner_abort [OF True g t] by simp
        next
          case v: False
          have "R (g_inner center (next_edge (edges s ! nedge s) (g_corrected s)))"
            by (rule less.hyps) (use dec corr [OF less.prems True g t v] in simp_all)
          then show ?thesis using g_inner_corr [OF True g t] v by simp
        qed
      qed
    qed
  qed
qed

subsection \<open>The gate search, one step at a time\<close>

lemma gate_scan_done: "\<not> gate_more g s \<Longrightarrow> gate_scan w g s = Inr s"
  by (subst gate_scan.simps) simp

lemma gate_scan_oob:
  "gate_more g s \<Longrightarrow> gate_size g \<le> igate s \<Longrightarrow> gate_scan w g s = Inl GateIndexOutOfRange"
  by (subst gate_scan.simps) simp

lemma gate_scan_before:
  "gate_more g s \<Longrightarrow> igate s < gate_size g \<Longrightarrow> edgepos s < gate_a g s \<Longrightarrow>
   gate_scan w g s = Inr s"
  by (subst gate_scan.simps) simp

lemma gate_scan_next:
  "gate_more g s \<Longrightarrow> igate s < gate_size g \<Longrightarrow> \<not> edgepos s < gate_a g s \<Longrightarrow>
   gate_b g s < edgepos s \<Longrightarrow> gate_scan w g s = gate_scan w g (s\<lparr>igate := igate s + 1\<rparr>)"
  by (subst gate_scan.simps) simp

lemma gate_scan_aligned:
  "gate_more g s \<Longrightarrow> igate s < gate_size g \<Longrightarrow> \<not> edgepos s < gate_a g s \<Longrightarrow>
   \<not> gate_b g s < edgepos s \<Longrightarrow> gate_scan w g s = aligned w g s"
  by (subst gate_scan.simps) simp

lemma gate_scan_rule:
  assumes init: "Q s"
    and "next": "\<And>s. Q s \<Longrightarrow> gate_more g s \<Longrightarrow> igate s < gate_size g \<Longrightarrow>
        \<not> edgepos s < gate_a g s \<Longrightarrow> gate_b g s < edgepos s \<Longrightarrow> Q (s\<lparr>igate := igate s + 1\<rparr>)"
    and stop: "\<And>s. Q s \<Longrightarrow> \<not> gate_more g s \<or> (igate s < gate_size g \<and> edgepos s < gate_a g s) \<Longrightarrow>
        R (Inr s)"
    and align: "\<And>s. Q s \<Longrightarrow> gate_more g s \<Longrightarrow> igate s < gate_size g \<Longrightarrow>
        \<not> edgepos s < gate_a g s \<Longrightarrow> \<not> gate_b g s < edgepos s \<Longrightarrow> R (aligned w g s)"
    and oob: "\<And>s. Q s \<Longrightarrow> gate_more g s \<Longrightarrow> gate_size g \<le> igate s \<Longrightarrow>
        R (Inl GateIndexOutOfRange)"
  shows "R (gate_scan w g s)"
  using init
proof (induction "gate_size g - igate s" arbitrary: s rule: less_induct)
  case less
  show ?case
  proof (cases "gate_more g s")
    case False
    then show ?thesis using stop [OF less.prems] by (simp add: gate_scan_done)
  next
    case True
    show ?thesis
    proof (cases "igate s < gate_size g")
      case False
      then show ?thesis using oob [OF less.prems True] by (simp add: gate_scan_oob [OF True])
    next
      case i: True
      show ?thesis
      proof (cases "edgepos s < gate_a g s")
        case a: True
        then show ?thesis using stop [OF less.prems] i by (simp add: gate_scan_before [OF True i])
      next
        case a: False
        show ?thesis
        proof (cases "gate_b g s < edgepos s")
          case b: True
          have "R (gate_scan w g (s\<lparr>igate := igate s + 1\<rparr>))"
            by (rule less.hyps) (use i "next" [OF less.prems True i a b] in simp_all)
          then show ?thesis by (simp add: gate_scan_next [OF True i a b])
        next
          case b: False
          then show ?thesis
            using align [OF less.prems True i a b] by (simp add: gate_scan_aligned [OF True i a b])
        qed
      qed
    qed
  qed
qed

subsection \<open>What the gated inner loop keeps and changes\<close>

lemma g_inner_frame:
  "edges (g_inner center s) = edges s \<and> tend (g_inner center s) = tend s \<and>
   fnyquist (g_inner center s) = fnyquist s \<and> initialPeriod (g_inner center s) = initialPeriod s \<and>
   halfPeriod (g_inner center s) = halfPeriod s \<and> offsets (g_inner center s) = offsets s \<and>
   igate (g_inner center s) = igate s \<and> gating (g_inner center s) = gating s \<and>
   gate (g_inner center s) = gate s"
  by (rule g_inner_rule [where Q = "\<lambda>t. edges t = edges s \<and> tend t = tend s \<and>
        fnyquist t = fnyquist s \<and> initialPeriod t = initialPeriod s \<and>
        halfPeriod t = halfPeriod s \<and> offsets t = offsets s \<and> igate t = igate s \<and>
        gating t = gating s \<and> gate t = gate s"]) simp_all

lemma g_inner_nedge_mono: "nedge s \<le> nedge (g_inner center s)"
  by (rule g_inner_rule [where Q = "\<lambda>t. nedge s \<le> nedge t \<and> edges t = edges s"])
    (auto simp: g_more_def)

lemma g_inner_unchanged:
  assumes "nedge (g_inner center s) = nedge s"
  shows "g_inner center s = s"
proof -
  have "g_inner center s = s \<or> nedge s < nedge (g_inner center s)"
    by (rule g_inner_rule [where Q = "\<lambda>t. (t = s \<or> nedge s < nedge t) \<and> edges t = edges s"])
      (auto simp: g_more_def)
  with assms show ?thesis by auto
qed

lemma g_inner_period:
  assumes "1 \<le> fnyquist s" "1 \<le> period s"
  shows "1 \<le> period (g_inner center s) \<or> nedge (g_inner center s) = length (edges s)"
  by (rule g_inner_rule [where Q = "\<lambda>t. 1 \<le> period t \<and> fnyquist t = fnyquist s \<and> edges t = edges s"])
    (use assms in auto)

lemma g_inner_nyquist:
  assumes "fnyquist s \<le> period s"
  shows "fnyquist s \<le> period (g_inner center s) \<or> nedge (g_inner center s) = length (edges s)"
  by (rule g_inner_rule [where Q = "\<lambda>t. fnyquist s \<le> period t \<and> fnyquist t = fnyquist s \<and> edges t = edges s"])
    (use assms in auto)

lemma g_inner_stopped:
  assumes "nedge s = length (edges s)"
  shows "g_inner center s = s"
  using assms by (intro g_inner_exit) (simp add: g_more_def)

lemma g_inner_nedge_bound:
  assumes "nedge s \<le> length (edges s)"
  shows "nedge (g_inner center s) \<le> length (edges s)"
  by (rule g_inner_rule [where Q = "\<lambda>t. nedge t \<le> length (edges s) \<and> edges t = edges s"])
    (use assms in \<open>auto simp: g_more_def\<close>)

subsection \<open>Reacquisition\<close>

lemma collect_lengths_positive:
  assumes "sorted_wrt (<) es" "w \<in> set (collect_lengths es n)"
  shows "1 \<le> w"
proof -
  from assms(2) obtain i where i: "i \<in> set (takeWhile (\<lambda>i. i + n < length es) [1..<513])"
    and w: "w = es ! (n + i) - es ! (n + i - 1)"
    by (auto simp: collect_lengths_def)
  from i have "i + n < length es" by (rule set_takeWhileD [THEN conjunct2])
  moreover from i have "1 \<le> i" using set_takeWhileD [OF i] by simp
  ultimately have "es ! (n + i - 1) < es ! (n + i)"
    using assms(1) by (intro sorted_wrt_nth_less) (auto simp: add.commute)
  with w show ?thesis by simp
qed

lemma sdiv_ge_1:
  fixes a b :: int
  assumes "0 < b" "b \<le> a"
  shows "1 \<le> a sdiv b"
proof -
  have "a sdiv b = a div b" using assms by (simp add: signed_divide_int_def sgn_if)
  moreover have "1 \<le> a div b" using assms by (simp add: pos_le_divide_eq int_one_le_iff_zero_less pos_imp_zdiv_pos_iff)
  ultimately show ?thesis by simp
qed

lemma sum_list_ge_length:
  fixes xs :: "int list"
  assumes "\<And>x. x \<in> set xs \<Longrightarrow> 1 \<le> x"
  shows "int (length xs) \<le> sum_list xs"
  using assms by (induction xs) (simp_all add: add_mono)

lemma reacquire_Inr:
  assumes "reacquire s = Inr s'"
  shows "s' = s\<lparr>period := period s', initialPeriod := period s', halfPeriod := period s' sdiv 2,
               edgepos := edges s ! nedge s + period s'\<rparr>"
  using assms by (auto simp: reacquire_def Let_def split: if_splits)

lemma reacquire_period:
  assumes "sorted_wrt (<) (edges s)" "reacquire s = Inr s'"
  shows "1 \<le> period s'"
proof -
  define lengths where "lengths = sort (collect_lengths (edges s) (nedge s))"
  define near where "near = filter (near_median (lengths ! (length lengths div 2))) lengths"
  have pos: "1 \<le> w" if "w \<in> set near" for w
    using that collect_lengths_positive [OF assms(1), of w "nedge s"]
    by (simp add: near_def lengths_def)
  from assms(2) have n: "near \<noteq> []" and p: "period s' = sum_list near sdiv int (length near)"
    by (auto simp: reacquire_def Let_def near_def lengths_def split: if_splits)
  have "int (length near) \<le> sum_list near" by (rule sum_list_ge_length) (rule pos)
  moreover have "0 < int (length near)" using n by simp
  ultimately show ?thesis unfolding p by (intro sdiv_ge_1)
qed

subsection \<open>The gate search\<close>

lemma gate_scan_post:
  assumes "igate s < gate_size g"
  shows "scan_post g s (gate_scan (gating s) g s)"
proof (rule gate_scan_rule [where Q = "\<lambda>t. t = s\<lparr>igate := igate t\<rparr> \<and> igate s \<le> igate t \<and> igate t < gate_size g"])
  show "s = s\<lparr>igate := igate s\<rparr> \<and> igate s \<le> igate s \<and> igate s < gate_size g"
    using assms by simp
next
  fix t assume q: "t = s\<lparr>igate := igate t\<rparr> \<and> igate s \<le> igate t \<and> igate t < gate_size g"
    and m: "gate_more g t"
  from q have t: "t = s\<lparr>igate := igate t\<rparr>" by simp
  have "igate t + 1 < gate_size g"
    using m q by (auto simp: gate_more_def size_dec_def split: if_splits)
  moreover have "t\<lparr>igate := igate t + 1\<rparr> = s\<lparr>igate := igate t + 1\<rparr>"
    by (subst t) simp
  ultimately show "t\<lparr>igate := igate t + 1\<rparr> = s\<lparr>igate := igate (t\<lparr>igate := igate t + 1\<rparr>)\<rparr> \<and>
      igate s \<le> igate (t\<lparr>igate := igate t + 1\<rparr>) \<and> igate (t\<lparr>igate := igate t + 1\<rparr>) < gate_size g"
    using q by simp
next
  fix t assume q: "t = s\<lparr>igate := igate t\<rparr> \<and> igate s \<le> igate t \<and> igate t < gate_size g"
  from q have t: "t = s\<lparr>igate := igate t\<rparr>" by simp
  have fr: "edges t = edges s" "tend t = tend s" "fnyquist t = fnyquist s" "gate t = gate s"
    "nedge t = nedge s" "tlast t = tlast s" "visits t = visits s" "offsets t = offsets s"
    "period t = period s" "edgepos t = edgepos s" "gating t = gating s"
    by (subst t, simp)+
  have rank: "gate_rank (Some g) t \<le> gate_rank (Some g) s"
  proof (cases "igate t = igate s")
    case True
    then show ?thesis using fr by (simp add: gate_rank_def)
  next
    case False
    then show ?thesis using q by (auto simp: gate_rank_def)
  qed
  show "scan_post g s (Inr t)"
    using q fr rank by (simp add: scan_post_def)
next
  fix t assume q: "t = s\<lparr>igate := igate t\<rparr> \<and> igate s \<le> igate t \<and> igate t < gate_size g"
  from q have t: "t = s\<lparr>igate := igate t\<rparr>" by simp
  have fr: "edges t = edges s" "tend t = tend s" "fnyquist t = fnyquist s" "gate t = gate s"
    "nedge t = nedge s" "tlast t = tlast s" "visits t = visits s" "offsets t = offsets s"
    "period t = period s" "edgepos t = edgepos s" "gating t = gating s"
    by (subst t, simp)+
  let ?s1 = "t\<lparr>gating := \<not> GetValue g (igate t)\<rparr>"
  have rank1: "gate_rank (Some g) ?s1 \<le> gate_rank (Some g) s"
    using q by (auto simp: gate_rank_def)
  show "scan_post g s (aligned (gating s) g t)"
  proof (cases "\<not> gating ?s1 \<and> gating s")
    case False
    then have "aligned (gating s) g t = Inr ?s1" by (auto simp: aligned_def Let_def)
    then show ?thesis using q fr rank1 by (simp add: scan_post_def)
  next
    case True
    then have a: "aligned (gating s) g t = reacquire ?s1" by (auto simp: aligned_def Let_def)
    have strict: "gate_rank (Some g) ?s1 < gate_rank (Some g) s"
    proof (cases "igate t = igate s")
      case e: True
      then show ?thesis using True q by (auto simp: gate_rank_def)
    next
      case False
      then show ?thesis using True q by (auto simp: gate_rank_def)
    qed
    show ?thesis
    proof (cases "reacquire ?s1")
      case (Inl e)
      then show ?thesis by (simp add: a scan_post_def)
    next
      case (Inr s')
      note eq = reacquire_Inr [OF Inr]
      have fr': "edges s' = edges s" "tend s' = tend s" "fnyquist s' = fnyquist s" "gate s' = gate s"
        "nedge s' = nedge s" "tlast s' = tlast s" "visits s' = visits s" "offsets s' = offsets s"
        "igate s' = igate t" "gating s' = gating ?s1"
        by (subst eq, simp add: fr)+
      have "gate_rank (Some g) s' = gate_rank (Some g) ?s1"
        using fr' by (simp add: gate_rank_def)
      moreover have "sorted_wrt (<) (edges s) \<longrightarrow> 1 \<le> period s'"
        using reacquire_period [OF _ Inr] fr by simp
      ultimately show ?thesis
        using q fr' strict by (simp add: a Inr scan_post_def)
    qed
  qed
qed (simp_all add: scan_post_def)

subsection \<open>The outer loop of InnerLoopWithGating\<close>

lemma g_body_eq:
  "g_body s =
     (case g_scan s of Inl e \<Rightarrow> Inl e
      | Inr s1 \<Rightarrow> Inr (g_emit (g_inner (i2f (period s sdiv 2)) s1)))"
  by (simp add: g_body_def Let_def)

lemma g_emit_frame [simp]:
  "edges (g_emit s) = edges s" "tend (g_emit s) = tend s" "fnyquist (g_emit s) = fnyquist s"
  "initialPeriod (g_emit s) = initialPeriod s" "halfPeriod (g_emit s) = halfPeriod s"
  "nedge (g_emit s) = nedge s" "tlast (g_emit s) = tlast s" "visits (g_emit s) = visits s"
  "igate (g_emit s) = igate s" "period (g_emit s) = period s" "gating (g_emit s) = gating s"
  "gate (g_emit s) = gate s" "edgepos (g_emit s) = edgepos s + period s"
  "offsets (g_emit s) = (if gating s then offsets s else offsets s @ [edgepos s + period s sdiv 2])"
  by (simp_all add: g_emit_def push_offset_def Let_def)

lemma g_cond_stopped: "edges s \<noteq> [] \<Longrightarrow> nedge s = length (edges s) \<Longrightarrow> \<not> g_cond s"
  by (simp add: g_cond_def size_dec_def)

lemma g_inv_init:
  "edges c \<noteq> [] \<Longrightarrow> 1 \<le> fnyquist c \<Longrightarrow> fnyquist c \<le> initialPeriod c \<Longrightarrow> g_inv c gt (g_init c gt)"
  by (cases "edges c") (auto simp: g_inv_def g_init_def split: option.splits)

text \<open>What the gate search leaves for the rest of the iteration.\<close>

lemma g_scan_post:
  assumes "g_inv c gt s" "g_scan s = Inr s1"
  shows "edges s1 = edges s \<and> tend s1 = tend s \<and> fnyquist s1 = fnyquist s \<and> gate s1 = gate s \<and>
     nedge s1 = nedge s \<and> tlast s1 = tlast s \<and> visits s1 = visits s \<and> offsets s1 = offsets s \<and>
     (case gt of None \<Rightarrow> True | Some g \<Rightarrow> igate s1 < gate_size g) \<and>
     (period s1 = period s \<and> edgepos s1 = edgepos s \<and> gate_rank gt s1 \<le> gate_rank gt s \<or>
      gate_rank gt s1 < gate_rank gt s \<and> (sorted_wrt (<) (edges s) \<longrightarrow> 1 \<le> period s1))"
proof (cases gt)
  case None
  then show ?thesis using assms by (simp add: g_scan_def g_inv_def)
next
  case (Some g)
  then have gs: "gate s = Some g" using assms(1) by (simp add: g_inv_def)
  then have scan: "gate_scan (gating s) g s = Inr s1" using assms(2) by (simp add: g_scan_def)
  have "igate s < gate_size g"
  proof (rule ccontr)
    assume "\<not> igate s < gate_size g"
    then have z: "gate_size g = 0" "igate s = 0" using assms(1) Some by (auto simp: g_inv_def)
    then have "gate_scan (gating s) g s = Inl GateIndexOutOfRange"
      by (intro gate_scan_oob) (simp_all add: gate_more_def size_dec_def)
    with scan show False by simp
  qed
  from gate_scan_post [OF this] show ?thesis
    using gs Some by (simp add: scan scan_post_def)
qed

lemma g_body_step:
  assumes c: "edges c \<noteq> []" "1 \<le> fnyquist c" "sorted_wrt (<) (edges c)"
    and inv: "g_inv c gt s" and cond: "g_cond s" and body: "g_body s = Inr s'"
  shows "g_inv c gt s' \<and> (s', s) \<in> g_rel c gt"
proof -
  let ?center = "i2f (period s sdiv 2)"
  from body obtain s1 where scan: "g_scan s = Inr s1" and s': "s' = g_emit (g_inner ?center s1)"
    by (auto simp: g_body_eq split: sum.splits)
  let ?s2 = "g_inner ?center s1"
  note post = g_scan_post [OF inv scan]
  from inv have e: "edges s = edges c" "fnyquist s = fnyquist c" "tend s = tend c" "gate s = gt"
    by (auto simp: g_inv_def)
  from post e have e1: "edges s1 = edges c" "fnyquist s1 = fnyquist c" "tend s1 = tend c"
    "gate s1 = gt" "nedge s1 = nedge s"
    by auto
  have fr2: "edges ?s2 = edges c" "fnyquist ?s2 = fnyquist c" "tend ?s2 = tend c" "gate ?s2 = gt"
    "igate ?s2 = igate s1" "gating ?s2 = gating s1"
    using g_inner_frame [of ?center s1] e1 by auto
  have rank2: "gate_rank gt ?s2 = gate_rank gt s1"
    using fr2 by (auto simp: gate_rank_def split: option.splits)
  have head: "nedge s \<noteq> length (edges c)" "edgepos s < tend c"
    using cond e c(1) by (auto simp: g_cond_def size_dec_def)
  then have p: "1 \<le> period s" using inv by (auto simp: g_inv_def)
  have p1: "1 \<le> period s1" using post p e c(3) by auto
  have per2: "1 \<le> period ?s2 \<or> nedge ?s2 = length (edges c)"
    using g_inner_period [of s1 ?center] p1 c(2) e1 by simp
  have mono: "nedge s \<le> nedge ?s2" using g_inner_nedge_mono [of s1 ?center] e1 by simp
  have bound: "nedge ?s2 \<le> length (edges c)"
    using g_inner_nedge_bound [of s1 ?center] inv e1 by (simp add: g_inv_def)
  have ig: "case gt of None \<Rightarrow> True | Some g \<Rightarrow> igate ?s2 < gate_size g"
    using post fr2 by (auto split: option.splits)
  have rank': "gate_rank gt s' = gate_rank gt s1"
    using fr2 by (auto simp: s' gate_rank_def split: option.splits)
  have "g_inv c gt s'"
    using fr2 per2 bound ig by (auto simp: s' g_inv_def split: option.splits)
  moreover have "(s', s) \<in> g_rel c gt"
  proof (cases "gate_rank gt s1 < gate_rank gt s")
    case True
    then have "gate_rank gt s' < gate_rank gt s" by (simp add: rank')
    then show ?thesis by (simp add: g_rel_def)
  next
    case False
    with post have same: "period s1 = period s" "edgepos s1 = edgepos s"
      "gate_rank gt s1 = gate_rank gt s"
      by auto
    have r: "gate_rank gt s' = gate_rank gt s"
      using same(3) by (simp add: rank')
    show ?thesis
    proof (cases "nedge ?s2 = nedge s")
      case False
      with mono bound have "length (edges c) - nedge ?s2 < length (edges c) - nedge s"
        by linarith
      then show ?thesis using r by (simp add: g_rel_def s')
    next
      case True
      then have "?s2 = s1" using e1 by (intro g_inner_unchanged) simp
      then have "edgepos s' = edgepos s + period s" "nedge s' = nedge s"
        using same e1 by (simp_all add: s')
      then show ?thesis using r p head by (simp add: g_rel_def)
    qed
  qed
  ultimately show ?thesis by simp
qed

lemma g_step_ok:
  assumes "edges c \<noteq> []" "1 \<le> fnyquist c" "sorted_wrt (<) (edges c)"
    and "g_ok c gt r" "g_continue r"
  shows "g_ok c gt (g_step r)"
proof -
  from assms(5) obtain s where r: "r = Inr s" and cond: "g_cond s"
    by (auto simp: g_continue_def split: sum.splits)
  show ?thesis
  proof (cases "g_body s")
    case (Inl e)
    then show ?thesis by (simp add: r g_step_def g_ok_def)
  next
    case (Inr s')
    from g_body_step [OF assms(1-3) _ cond Inr] assms(4) show ?thesis
      by (simp add: r g_step_def g_ok_def Inr)
  qed
qed

lemma g_terminates:
  assumes "edges c \<noteq> []" "1 \<le> fnyquist c" "fnyquist c \<le> initialPeriod c"
    and "sorted_wrt (<) (edges c)"
  shows "\<exists>r. while_option g_continue g_step (Inr (g_init c gt)) = Some r"
proof (rule wf_while_option_Some [where P = "g_ok c gt"])
  let ?R = "measures [on_frame (\<lambda>s. 1), on_frame (gate_rank gt),
    on_frame (\<lambda>s. length (edges c) - nedge s), on_frame (\<lambda>s. nat (tend c - edgepos s))]"
  show "wf {(t, r). (g_ok c gt r \<and> g_continue r) \<and> t = g_step r}"
  proof (rule wf_subset)
    show "wf ?R" by simp
    show "{(t, r). (g_ok c gt r \<and> g_continue r) \<and> t = g_step r} \<subseteq> ?R"
    proof clarify
      fix r assume ok: "g_ok c gt r" and cont: "g_continue r"
      from cont obtain s where r: "r = Inr s" and cond: "g_cond s"
        by (auto simp: g_continue_def split: sum.splits)
      show "(g_step r, r) \<in> ?R"
      proof (cases "g_body s")
        case (Inl e)
        then show ?thesis by (simp add: r g_step_def on_frame_def)
      next
        case (Inr s')
        from g_body_step [OF assms(1,2,4) _ cond Inr] ok show ?thesis
          by (simp add: r g_step_def g_ok_def Inr on_frame_def g_rel_def)
      qed
    qed
  qed
  show "\<And>r. g_ok c gt r \<Longrightarrow> g_continue r \<Longrightarrow> g_ok c gt (g_step r)"
    by (rule g_step_ok [OF assms(1,2,4)])
  show "g_ok c gt (Inr (g_init c gt))"
    using g_inv_init [OF assms(1-3)] by (simp add: g_ok_def)
qed

lemma g_ok_reached:
  assumes "edges c \<noteq> []" "1 \<le> fnyquist c" "fnyquist c \<le> initialPeriod c"
    and "sorted_wrt (<) (edges c)"
    and "\<forall>j<k. g_continue ((g_step ^^ j) (Inr (g_init c gt)))"
  shows "g_ok c gt ((g_step ^^ k) (Inr (g_init c gt)))"
  using assms(5)
proof (induction k)
  case 0
  show ?case using g_inv_init [OF assms(1-3)] by (simp add: g_ok_def)
next
  case (Suc k)
  then have "g_ok c gt ((g_step ^^ k) (Inr (g_init c gt)))"
    and "g_continue ((g_step ^^ k) (Inr (g_init c gt)))"
    by simp_all
  from g_step_ok [OF assms(1,2,4) this] show ?case by simp
qed

subsection \<open>Which visited edges are corrected\<close>

lemma rule_from_snoc:
  "rule_from first (vs @ [(k, g, c)]) \<longleftrightarrow> rule_from first vs \<and> c = (\<not> g \<and> \<not> (first \<and> vs = []))"
proof (induction vs arbitrary: first)
  case Nil
  show ?case by simp
next
  case (Cons v vs)
  obtain k' g' c' where v: "v = (k', g', c')" by (cases v)
  show ?case using Cons.IH [of False] by (simp add: v)
qed

lemma corrected_rule_snoc:
  "corrected_rule (vs @ [(k, g, c)]) \<longleftrightarrow> corrected_rule vs \<and> c = (\<not> g \<and> vs \<noteq> [])"
  by (auto simp: corrected_rule_def rule_from_snoc)

lemma no_zero_edge_nth:
  assumes "no_zero_edge es" "1 \<le> k" "k < length es"
  shows "es ! k \<noteq> 0"
proof -
  have "tl es ! (k - 1) \<in> set (tl es)" using assms by (intro nth_mem) simp
  moreover have "tl es ! (k - 1) = es ! k" using assms by (simp add: nth_tl)
  ultimately show ?thesis using assms(1) by (auto simp: no_zero_edge_def)
qed

lemma ng_inner_vis:
  assumes "es \<noteq> []" "no_zero_edge es" "vis_inv es s \<and> never_gated (visits s)"
  shows "vis_inv es (ng_inner center s) \<and> never_gated (visits (ng_inner center s))"
proof (rule ng_inner_rule [where Q = "\<lambda>t. vis_inv es t \<and> never_gated (visits t)"])
  show "vis_inv es s \<and> never_gated (visits s)" by (rule assms(3))
next
  fix t assume q: "vis_inv es t \<and> never_gated (visits t)" and m: "ng_more center t" and t0: "tlast t = 0"
  have "nedge t < length es" "1 \<le> nedge t"
    using q m assms(1) by (auto simp: vis_inv_def ng_more_def edgemax_def size_dec_def)
  then have "es ! nedge t \<noteq> 0" using no_zero_edge_nth [OF assms(2)] by simp
  then show "vis_inv es (next_edge (edges t ! nedge t) (visit False False t)) \<and>
      never_gated (visits (next_edge (edges t ! nedge t) (visit False False t)))"
    using q t0 by (auto simp: vis_inv_def corrected_rule_def never_gated_def)
next
  fix t assume q: "vis_inv es t \<and> never_gated (visits t)" and m: "ng_more center t" and t0: "tlast t \<noteq> 0"
  have "nedge t < length es" "1 \<le> nedge t"
    using q m assms(1) by (auto simp: vis_inv_def ng_more_def edgemax_def size_dec_def)
  then have nz: "es ! nedge t \<noteq> 0" using no_zero_edge_nth [OF assms(2)] by simp
  show "vis_inv es (next_edge (edges t ! nedge t) (ng_corrected t)) \<and>
      never_gated (visits (next_edge (edges t ! nedge t) (ng_corrected t)))"
    using q t0 nz by (auto simp: vis_inv_def corrected_rule_snoc never_gated_def)
  show "vis_inv es ((ng_corrected t)\<lparr>nedge := length (edges t)\<rparr>) \<and>
      never_gated (visits ((ng_corrected t)\<lparr>nedge := length (edges t)\<rparr>))"
    using q t0 assms(1) by (auto simp: vis_inv_def corrected_rule_snoc never_gated_def Suc_le_eq)
qed simp

lemma ng_body_vis:
  assumes "es \<noteq> []" "no_zero_edge es" "vis_inv es s \<and> never_gated (visits s)"
  shows "vis_inv es (ng_body s) \<and> never_gated (visits (ng_body s))"
  using ng_inner_vis [OF assms, of "iperiod s sdiv 2"]
  by (simp add: vis_inv_def ng_body_def Let_def push_offset_def)

lemma ng_visits:
  assumes "no_zero_edge (edges c)" "InnerLoopWithNoGating c = Some (Inr s)"
  shows "corrected_rule (visits s) \<and> never_gated (visits s)"
proof -
  from assms(2) have ne: "edges c \<noteq> []"
    and w: "while_option ng_cond ng_body (ng_init c) = Some s"
    by (auto simp: InnerLoopWithNoGating_def split: if_splits)
  have "vis_inv (edges c) s \<and> never_gated (visits s)"
  proof (rule while_option_rule [where P = "\<lambda>s. vis_inv (edges c) s \<and> never_gated (visits s)", OF _ w])
    show "vis_inv (edges c) (ng_init c) \<and> never_gated (visits (ng_init c))"
      by (simp add: vis_inv_def ng_init_def corrected_rule_def never_gated_def)
  qed (use ng_body_vis [OF ne assms(1)] in blast)
  then show ?thesis by (simp add: vis_inv_def)
qed

lemma reacquire_frame:
  assumes "reacquire s = Inr s'"
  shows "edges s' = edges s \<and> tend s' = tend s \<and> fnyquist s' = fnyquist s \<and> gate s' = gate s \<and>
     nedge s' = nedge s \<and> tlast s' = tlast s \<and> visits s' = visits s \<and> offsets s' = offsets s \<and>
     igate s' = igate s \<and> gating s' = gating s \<and> initialPeriod s' = period s' \<and>
     halfPeriod s' = period s' sdiv 2 \<and> edgepos s' = edges s ! nedge s + period s'"
  using assms by (auto simp: reacquire_def Let_def split: if_splits)

lemma reacquire_error: "reacquire s = Inl e \<Longrightarrow> e \<noteq> GateIndexOutOfRange"
  by (auto simp: reacquire_def Let_def split: if_splits)

lemma gate_scan_frame:
  assumes "gate_scan w g s = Inr s'"
  shows "edges s' = edges s \<and> tend s' = tend s \<and> fnyquist s' = fnyquist s \<and> gate s' = gate s \<and>
     nedge s' = nedge s \<and> tlast s' = tlast s \<and> visits s' = visits s \<and> offsets s' = offsets s"
proof -
  let ?F = "\<lambda>t::g_frame. edges t = edges s \<and> tend t = tend s \<and> fnyquist t = fnyquist s \<and> gate t = gate s \<and>
     nedge t = nedge s \<and> tlast t = tlast s \<and> visits t = visits s \<and> offsets t = offsets s"
  have "case gate_scan w g s of Inl e \<Rightarrow> True | Inr t \<Rightarrow> ?F t"
  proof (rule gate_scan_rule [where Q = ?F])
    fix t assume q: "?F t"
    show "case aligned w g t of Inl e \<Rightarrow> True | Inr t \<Rightarrow> ?F t"
    proof (cases "aligned w g t")
      case (Inr u)
      then have "u = t\<lparr>gating := \<not> GetValue g (igate t)\<rparr> \<or>
          reacquire (t\<lparr>gating := \<not> GetValue g (igate t)\<rparr>) = Inr u"
        by (auto simp: aligned_def Let_def split: if_splits)
      then show ?thesis
      proof
        assume "u = t\<lparr>gating := \<not> GetValue g (igate t)\<rparr>"
        then show ?thesis using q Inr by simp
      next
        assume "reacquire (t\<lparr>gating := \<not> GetValue g (igate t)\<rparr>) = Inr u"
        from reacquire_frame [OF this] have "?F u" using q by simp
        then show ?thesis using Inr by simp
      qed
    qed simp
  qed simp_all
  with assms show ?thesis by simp
qed

lemma g_scan_frame:
  assumes "g_scan s = Inr s'"
  shows "edges s' = edges s \<and> tend s' = tend s \<and> fnyquist s' = fnyquist s \<and> gate s' = gate s \<and>
     nedge s' = nedge s \<and> tlast s' = tlast s \<and> visits s' = visits s \<and> offsets s' = offsets s"
  using assms gate_scan_frame [of "gating s" _ s s']
  by (auto simp: g_scan_def split: option.splits)

lemma g_inner_vis:
  assumes "no_zero_edge es" "vis_inv es s"
  shows "vis_inv es (g_inner center s)"
proof (rule g_inner_rule [where Q = "vis_inv es"])
  fix t assume q: "vis_inv es t" and m: "g_more center t"
  have "nedge t < length es" "1 \<le> nedge t"
    using q m by (auto simp: vis_inv_def g_more_def)
  then have nz: "es ! nedge t \<noteq> 0" using no_zero_edge_nth [OF assms(1)] by simp
  show "gating t \<Longrightarrow> vis_inv es (next_edge (edges t ! nedge t) (visit True False t))"
    using q nz by (auto simp: vis_inv_def corrected_rule_snoc)
  show "\<not> gating t \<Longrightarrow> tlast t = 0 \<Longrightarrow> vis_inv es (next_edge (edges t ! nedge t) (visit False False t))"
    using q nz by (auto simp: vis_inv_def corrected_rule_def)
  show "\<not> gating t \<Longrightarrow> tlast t \<noteq> 0 \<Longrightarrow> vis_inv es (next_edge (edges t ! nedge t) (g_corrected t))"
    using q nz by (auto simp: vis_inv_def corrected_rule_snoc)
  show "\<not> gating t \<Longrightarrow> tlast t \<noteq> 0 \<Longrightarrow> vis_inv es ((g_corrected t)\<lparr>nedge := length (edges t)\<rparr>)"
    using q \<open>nedge t < length es\<close> by (auto simp: vis_inv_def corrected_rule_snoc)
qed (use assms(2) in simp_all)

lemma g_body_vis:
  assumes "no_zero_edge es" "vis_inv es s" "g_body s = Inr s'"
  shows "vis_inv es s'"
proof -
  from assms(3) obtain s1 where scan: "g_scan s = Inr s1"
    and s': "s' = g_emit (g_inner (i2f (period s sdiv 2)) s1)"
    by (auto simp: g_body_eq split: sum.splits)
  have "vis_inv es s1" using g_scan_frame [OF scan] assms(2) by (simp add: vis_inv_def)
  from g_inner_vis [OF assms(1) this] show ?thesis by (simp add: s' vis_inv_def)
qed

lemma g_visits:
  assumes "no_zero_edge (edges c)" "InnerLoopWithGating c gt = Some (Inr s)"
  shows "corrected_rule (visits s)"
proof -
  from assms(2) have w: "while_option g_continue g_step (Inr (g_init c gt)) = Some (Inr s)"
    by (auto simp: InnerLoopWithGating_def split: if_splits)
  let ?P = "\<lambda>r :: pll_error + g_frame. case r of Inl e \<Rightarrow> True | Inr t \<Rightarrow> vis_inv (edges c) t"
  have "?P (Inr s)"
  proof (rule while_option_rule [where P = ?P, OF _ w])
    show "?P (Inr (g_init c gt))"
      by (simp add: vis_inv_def g_init_def corrected_rule_def)
    fix r assume "?P r" "g_continue r"
    then show "?P (g_step r)"
      using g_body_vis [OF assms(1)]
      by (auto simp: g_step_def g_continue_def split: sum.splits)
  qed
  then show ?thesis by (simp add: vis_inv_def)
qed

subsection \<open>Gate reads\<close>

lemma gate_scan_in_range:
  assumes "igate s < gate_size g"
  shows "gate_scan w g s \<noteq> Inl GateIndexOutOfRange \<and>
     (\<forall>s'. gate_scan w g s = Inr s' \<longrightarrow> igate s' < gate_size g)"
proof (rule gate_scan_rule [where Q = "\<lambda>t. igate t < gate_size g"])
  fix t :: g_frame assume q: "igate t < gate_size g"
  show "gate_more g t \<Longrightarrow> igate (t\<lparr>igate := igate t + 1\<rparr>) < gate_size g"
    using q by (auto simp: gate_more_def size_dec_def split: if_splits)
  show "aligned w g t \<noteq> Inl GateIndexOutOfRange \<and>
     (\<forall>s'. aligned w g t = Inr s' \<longrightarrow> igate s' < gate_size g)"
  proof (cases "aligned w g t")
    case (Inl e)
    then have "reacquire (t\<lparr>gating := \<not> GetValue g (igate t)\<rparr>) = Inl e"
      by (auto simp: aligned_def Let_def split: if_splits)
    then have "e \<noteq> GateIndexOutOfRange" by (rule reacquire_error)
    then show ?thesis using Inl by simp
  next
    case (Inr u)
    then have "u = t\<lparr>gating := \<not> GetValue g (igate t)\<rparr> \<or>
        reacquire (t\<lparr>gating := \<not> GetValue g (igate t)\<rparr>) = Inr u"
      by (auto simp: aligned_def Let_def split: if_splits)
    then have "igate u = igate t" using reacquire_frame [of _ u] by auto
    then show ?thesis using Inr q by simp
  qed
  show "gate_size g \<le> igate t \<Longrightarrow> Inl GateIndexOutOfRange \<noteq> Inl GateIndexOutOfRange \<and>
     (\<forall>s'. Inl GateIndexOutOfRange = Inr s' \<longrightarrow> igate s' < gate_size g)"
    using q by simp
qed (use assms in auto)

lemma gate_reads_in_range:
  assumes "0 < gate_size g"
  shows "InnerLoopWithGating c (Some g) \<noteq> Some (Inl GateIndexOutOfRange)"
proof (cases "edges c = []")
  case True
  then show ?thesis by (simp add: InnerLoopWithGating_def)
next
  case False
  let ?P = "\<lambda>r :: pll_error + g_frame. case r of Inl e \<Rightarrow> e \<noteq> GateIndexOutOfRange
                | Inr t \<Rightarrow> igate t < gate_size g \<and> gate t = Some g"
  show ?thesis
  proof
    assume "InnerLoopWithGating c (Some g) = Some (Inl GateIndexOutOfRange)"
    then have w: "while_option g_continue g_step (Inr (g_init c (Some g))) = Some (Inl GateIndexOutOfRange)"
      using False by (simp add: InnerLoopWithGating_def)
    have "?P (Inl GateIndexOutOfRange)"
    proof (rule while_option_rule [where P = ?P, OF _ w])
      show "?P (Inr (g_init c (Some g)))" using assms by (simp add: g_init_def)
      fix r assume p: "?P r" and "g_continue r"
      then obtain t where r: "r = Inr t" by (auto simp: g_continue_def split: sum.splits)
      with p have t: "igate t < gate_size g" "gate t = Some g" by simp_all
      note scan = gate_scan_in_range [OF t(1), of "gating t"]
      show "?P (g_step r)"
      proof (cases "g_scan t")
        case (Inl e)
        then show ?thesis using scan t by (simp add: r g_step_def g_body_eq g_scan_def)
      next
        case (Inr t1)
        then have "igate t1 < gate_size g" "gate t1 = Some g"
          using scan t g_scan_frame [OF Inr] by (simp_all add: g_scan_def)
        then show ?thesis
          using g_inner_frame [of "i2f (period t sdiv 2)" t1]
          by (simp add: r g_step_def g_body_eq Inr)
      qed
    qed
    then show False by simp
  qed
qed

section \<open>Evaluation\<close>

lemma floor_rat_numeral_div [simp]:
  "\<lfloor>numeral a / numeral b :: rat\<rfloor> = numeral a div numeral b"
  by (metis floor_divide_of_int_eq of_int_numeral)

lemma floor_rat_neg_numeral_div [simp]:
  "\<lfloor>- (numeral a / numeral b) :: rat\<rfloor> = - numeral a div numeral b"
  by (metis floor_divide_of_int_eq of_int_numeral of_int_neg_numeral minus_divide_left)

lemma floor_rat_one_div [simp]: "\<lfloor>1 / numeral b :: rat\<rfloor> = 1 div numeral b"
  by (metis floor_divide_of_int_eq of_int_numeral of_int_1)

lemmas fround_eval = f32_def f64_def fround_def flog2_def flog2_up.simps flog2_dn.simps
  round_even_def Let_def

lemma d_0_006_eval: "d_0_006 = 3458764513820541 / 576460752303423488"
  by (simp add: d_0_006_def fround_eval)

lemma d_0_002_eval: "d_0_002 = 1152921504606847 / 576460752303423488"
  by (simp add: d_0_002_def fround_eval)

lemma d_0_0025_eval: "d_0_0025 = 5764607523034235 / 2305843009213693952"
  by (simp add: d_0_0025_def fround_eval)

lemma d_0_1_eval: "d_0_1 = 3602879701896397 / 36028797018963968"
  by (simp add: d_0_1_def fround_eval)

lemma d_0_75_eval: "d_0_75 = 3 / 4"
  by (simp add: d_0_75_def fround_eval)

lemma d_1_25_eval: "d_1_25 = 5 / 4"
  by (simp add: d_1_25_def fround_eval)

lemmas float_eval = fround_eval i2f_def i2d_def cround_def f2i_def signed_divide_int_def
  d_0_006_eval d_0_002_eval d_0_0025_eval d_0_1_eval d_0_75_eval d_1_25_eval

lemmas ng_eval = ng_init_def ng_cond_def ng_body_def ng_inner.simps ng_more_def ng_corrected_def
  ng_correct_def ng_fdperiod_def ng_numUIs_def ng_fdphase_def ng_dphase_def edgemax_def
  size_dec_def glitchCutoff_def initialFrequency_def visit_def next_edge_def push_offset_def

text \<open>The intervals collected for a reacquisition, without the scan of 512 indices.\<close>

lemma takeWhile_upt_less: "takeWhile (\<lambda>i. i < m) [a..<b] = [a..<min b m]"
proof (induction "b - a" arbitrary: a)
  case 0
  then show ?case by simp
next
  case (Suc k)
  then have ab: "a < b" and k: "k = b - Suc a" by simp_all
  show ?case
  proof (cases "a < m")
    case True
    then have "[a..<min b m] = a # [Suc a..<min b m]"
      using ab by (simp add: upt_conv_Cons)
    then show ?thesis using Suc.hyps(1) [OF k] ab True by (simp add: upt_conv_Cons)
  next
    case False
    then show ?thesis using ab by (simp add: upt_conv_Cons)
  qed
qed

lemma collect_lengths_eval:
  "collect_lengths es n =
     map (\<lambda>i. es ! (n + i) - es ! (n + i - 1)) [1..<min 513 (length es - n)]"
proof -
  have "(\<lambda>i. i + n < length es) = (\<lambda>i. i < length es - n)" by auto
  then show ?thesis by (simp add: collect_lengths_def takeWhile_upt_less)
qed

lemmas g_eval = g_init_def g_cond_def g_body_def g_inner.simps g_more_def g_corrected_def
  g_correct_def g_dperiod_def g_numUIs_def g_dphase_def size_dec_def visit_def next_edge_def
  push_offset_def g_continue_def g_step_def g_scan_def g_emit_def gate_scan.simps gate_more_def
  gate_a_def gate_b_def aligned_def reacquire_def collect_lengths_eval near_median_def

lemma c3_ng_head_reached: "(ng_body ^^ 2) (ng_init c3_call) = c3_ng_head"
  by (simp add: numeral_2_eq_2 c3_call_def c3_ng_head_def ng_eval float_eval)

lemma c3_ng_step_reached: "next_edge 600 (visit False False c3_ng_head) = c3_ng_step"
  by (simp add: c3_ng_head_def c3_ng_step_def ng_eval)

lemma c3_ng_step_more: "ng_more 500 c3_ng_step"
  by (simp add: c3_ng_step_def ng_eval)

lemma c3_ng_step_corrected:
  "ng_corrected c3_ng_step = c3_ng_step\<lparr>visits := [(1, False, False), (2, False, True)],
     iperiod := 999, fperiod := 8187085 / 8192, edgepos := 1998\<rparr>"
  by (simp add: c3_ng_step_def ng_eval float_eval)

lemma c3_ng_inner:
  "ng_inner 500 c3_ng_head = c3_ng_step\<lparr>visits := [(1, False, False), (2, False, True)],
     iperiod := 999, fperiod := 8187085 / 8192, edgepos := 1998, nedge := 4\<rparr>"
  by (simp add: c3_ng_head_def c3_ng_step_def ng_eval float_eval)

lemma c3_ng_run:
  "map_option (map_sum id offsets) (InnerLoopWithNoGating c3_call) = Some (Inr [500, 1500, 2498])"
  by (simp add: InnerLoopWithNoGating_def c3_call_def while_option_unfold ng_eval float_eval)

lemma c3_g_head_reached: "(g_step ^^ 2) (Inr (g_init c3_call None)) = Inr c3_g_head"
  by (simp add: numeral_2_eq_2 c3_call_def c3_g_head_def g_eval float_eval)

lemma c3_g_step_more: "g_more (i2f 500) c3_g_step"
  by (simp add: c3_g_step_def g_eval float_eval)

lemma c3_g_step_corrected:
  "g_corrected c3_g_step = c3_g_step\<lparr>visits := [(1, False, False), (2, False, True)],
     period := 999, edgepos := 1998\<rparr>"
  by (simp add: c3_g_step_def g_eval float_eval)

lemma c3_g_inner:
  "g_inner (i2f 500) c3_g_head = c3_g_step\<lparr>visits := [(1, False, False), (2, False, True)],
     period := 999, edgepos := 1998, nedge := 4\<rparr>"
  by (simp add: c3_g_head_def c3_g_step_def g_eval float_eval)

lemma c3_g_run:
  "map_option (map_sum id offsets) (InnerLoopWithGating c3_call None) = Some (Inr [500, 1500, 2497])"
  by (simp add: InnerLoopWithGating_def c3_call_def while_option_unfold g_eval float_eval)

lemma c10_reached:
  "g_step (g_step (g_step (g_step (Inr (g_init c10_call (Some c10_gate)))))) = Inr c10_frame"
  by (simp add: c10_call_def c10_gate_def c10_frame_def g_eval float_eval)



lemma c10_g_scan: "g_scan c10_frame = Inr c10_frame"
  by (simp add: c10_frame_def c10_gate_def g_eval)

lemma c10_g_inner:
  "g_inner (i2f 50000) c10_frame =
     c10_frame\<lparr>visits := [(1, False, False), (2, False, True)], tlast := 2400000,
       edgepos := 2600250, nedge := 5\<rparr>"
  by (simp add: c10_frame_def c10_gate_def g_eval float_eval)

lemma c10_frame_facts:
  "edges c10_frame \<noteq> []" "g_cond c10_frame" "period c10_frame < fnyquist c10_frame"
  "i2f (period c10_frame sdiv 2) = i2f 50000" "offsets c10_frame = [2550000]"
  "length (edges c10_frame) = 5"
  by (simp_all add: c10_frame_def g_cond_def size_dec_def signed_divide_int_def)

section \<open>Properties of the rounding\<close>

text \<open>
  \<open>flog2\<close> is the binary exponent; rounding to \<open>p\<close> bits is odd, monotone, exact on
  values of \<open>p\<close> bits, and off by at most half a unit in the last place.
\<close>

lemma two_powi_pos [simp]: "0 < (2::rat) powi n"
  by (simp add: zero_less_power_int)

lemma two_powi_Suc: "(2::rat) powi (n + 1) = 2 * 2 powi n"
  by (simp add: power_int_add)

lemma two_powi_pred: "(2::rat) powi (n - 1) = 2 powi n / 2"
  by (simp add: power_int_diff)

lemma two_powi_mono: "m \<le> n \<Longrightarrow> (2::rat) powi m \<le> 2 powi n"
  by (rule power_int_increasing) simp_all

lemma two_powi_strict_mono: "m < n \<Longrightarrow> (2::rat) powi m < 2 powi n"
  by (rule power_int_strict_increasing) simp_all

lemma flog2_up_spec:
  "1 \<le> x \<Longrightarrow> 2 powi flog2_up x \<le> x \<and> x < 2 powi (flog2_up x + 1)"
proof (induction x rule: flog2_up.induct)
  case (1 x)
  show ?case
  proof (cases "x < 2")
    case True
    then show ?thesis using 1(2) by (subst (1 2) flog2_up.simps) simp
  next
    case False
    then have "1 \<le> x / 2" by simp
    from 1(1) [OF False this] have ih: "2 powi flog2_up (x / 2) \<le> x / 2"
      "x / 2 < 2 powi (flog2_up (x / 2) + 1)" by simp_all
    have e: "flog2_up x = flog2_up (x / 2) + 1"
      using False by (subst flog2_up.simps) simp
    have "(2::rat) powi (flog2_up (x / 2) + 1 + 1) = 2 * 2 powi (flog2_up (x / 2) + 1)"
      "(2::rat) powi (flog2_up (x / 2) + 1) = 2 * 2 powi flog2_up (x / 2)"
      by (rule two_powi_Suc)+
    with ih show ?thesis unfolding e by linarith
  qed
qed

lemma flog2_dn_spec:
  "0 < x \<Longrightarrow> x < 2 \<Longrightarrow> 2 powi flog2_dn x \<le> x \<and> x < 2 powi (flog2_dn x + 1)"
proof (induction x rule: flog2_dn.induct)
  case (1 x)
  show ?case
  proof (cases "x \<le> 0 \<or> 1 \<le> x")
    case True
    then show ?thesis using 1(2,3) by (subst (1 2) flog2_dn.simps) simp
  next
    case False
    then have "0 < 2 * x" "2 * x < 2" by simp_all
    from 1(1) [OF False this] have ih: "2 powi flog2_dn (2 * x) \<le> 2 * x"
      "2 * x < 2 powi (flog2_dn (2 * x) + 1)" by simp_all
    have e: "flog2_dn x = flog2_dn (2 * x) - 1"
      using False by (subst flog2_dn.simps) simp
    have "(2::rat) powi (flog2_dn (2 * x) - 1 + 1) = 2 powi flog2_dn (2 * x)"
      "(2::rat) powi (flog2_dn (2 * x) + 1) = 2 * 2 powi flog2_dn (2 * x)"
      "(2::rat) powi (flog2_dn (2 * x) - 1) = 2 powi flog2_dn (2 * x) / 2"
      by (simp_all add: two_powi_Suc two_powi_pred)
    with ih show ?thesis unfolding e by linarith
  qed
qed

lemma flog2_spec:
  assumes "0 < x"
  shows "2 powi flog2 x \<le> x" "x < 2 powi (flog2 x + 1)"
  using assms flog2_up_spec [of x] flog2_dn_spec [of x]
  by (auto simp: flog2_def)

lemma flog2_unique:
  assumes "2 powi n \<le> x" "x < 2 powi (n + 1)"
  shows "flog2 x = n"
proof -
  have pos: "0 < x" using assms(1) two_powi_pos [of n] by linarith
  note s = flog2_spec [OF pos]
  have "\<not> flog2 x < n"
  proof
    assume "flog2 x < n"
    then have "2 powi (flog2 x + 1) \<le> (2::rat) powi n" by (intro two_powi_mono) simp
    with s(2) assms(1) show False by linarith
  qed
  moreover have "\<not> n < flog2 x"
  proof
    assume "n < flog2 x"
    then have "2 powi (n + 1) \<le> (2::rat) powi flog2 x" by (intro two_powi_mono) simp
    with s(1) assms(2) show False by linarith
  qed
  ultimately show ?thesis by simp
qed

lemma flog2_mono:
  assumes "0 < x" "x \<le> y"
  shows "flog2 x \<le> flog2 y"
proof (rule ccontr)
  assume "\<not> flog2 x \<le> flog2 y"
  then have "2 powi (flog2 y + 1) \<le> (2::rat) powi flog2 x" by (intro two_powi_mono) simp
  with flog2_spec [of x] flog2_spec [of y] assms show False by linarith
qed


lemma round_even_of_int [simp]: "round_even (of_int k) = k"
  by (simp add: round_even_def)

lemma round_even_cases: "round_even y = \<lfloor>y\<rfloor> \<or> round_even y = \<lfloor>y\<rfloor> + 1"
  by (simp add: round_even_def Let_def)

lemma round_even_error: "\<bar>of_int (round_even y) - y\<bar> \<le> 1 / 2"
proof -
  have "of_int \<lfloor>y\<rfloor> \<le> y" "y < of_int \<lfloor>y\<rfloor> + 1" by linarith+
  then show ?thesis by (auto simp: round_even_def Let_def abs_le_iff)
qed

lemma round_even_mono:
  assumes "y \<le> z"
  shows "round_even y \<le> round_even z"
proof (cases "\<lfloor>y\<rfloor> = \<lfloor>z\<rfloor>")
  case True
  have "y - of_int \<lfloor>z\<rfloor> \<le> z - of_int \<lfloor>z\<rfloor>" using assms by simp
  then show ?thesis by (auto simp: round_even_def Let_def True)
next
  case False
  moreover have "\<lfloor>y\<rfloor> \<le> \<lfloor>z\<rfloor>" using assms by (rule floor_mono)
  ultimately have "\<lfloor>y\<rfloor> + 1 \<le> \<lfloor>z\<rfloor>" by simp
  with round_even_cases [of y] round_even_cases [of z] show ?thesis by linarith
qed

lemma round_even_minus: "round_even (- y) = - round_even y"
proof (cases "y = of_int \<lfloor>y\<rfloor>")
  case True
  then obtain k where "y = of_int k" ..
  then have "- y = of_int (- k)" by simp
  then show ?thesis unfolding \<open>y = of_int k\<close> by (simp only: round_even_of_int)
next
  case False
  define f where "f = \<lfloor>y\<rfloor>"
  define r where "r = y - of_int f"
  have fl: "\<lfloor>- y\<rfloor> = - f - 1"
    using False by (simp add: floor_minus ceiling_altdef f_def)
  have r: "0 < r" "r < 1"
    using False by (auto simp: r_def f_def) linarith+
  have r': "- y - of_int (- f - 1) = 1 - r" by (simp add: r_def)
  have par: "even (- f - 1) \<longleftrightarrow> odd f" by simp
  have a: "round_even y = (if r < 1 / 2 then f else if 1 / 2 < r then f + 1
      else if even f then f else f + 1)"
    by (simp add: round_even_def Let_def f_def r_def)
  have b: "round_even (- y) = (if 1 - r < 1 / 2 then - f - 1 else if 1 / 2 < 1 - r then - f
      else if odd f then - f - 1 else - f)"
    unfolding round_even_def Let_def fl r' par by simp
  show ?thesis unfolding a b using r by auto
qed


lemma fround_0 [simp]: "fround p 0 = 0"
  by (simp add: fround_def)

lemma fround_nz:
  "x \<noteq> 0 \<Longrightarrow> fround p x =
     of_int (round_even (x / 2 powi (flog2 \<bar>x\<bar> - int p + 1))) * 2 powi (flog2 \<bar>x\<bar> - int p + 1)"
  by (simp add: fround_def Let_def)

lemma fround_minus: "fround p (- x) = - fround p x"
proof (cases "x = 0")
  case True
  then show ?thesis by simp
next
  case False
  then show ?thesis by (simp add: fround_nz round_even_minus)
qed

lemma fround_error:
  assumes "x \<noteq> 0"
  shows "\<bar>fround p x - x\<bar> \<le> 2 powi (flog2 \<bar>x\<bar> - int p + 1) / 2"
proof -
  define u :: rat where "u = 2 powi (flog2 \<bar>x\<bar> - int p + 1)"
  have u: "0 < u" by (simp add: u_def)
  have "fround p x - x = (of_int (round_even (x / u)) - x / u) * u"
    using u assms by (simp add: fround_nz u_def algebra_simps)
  then have "\<bar>fround p x - x\<bar> = \<bar>of_int (round_even (x / u)) - x / u\<bar> * u"
    using u by (simp add: abs_mult)
  also have "\<dots> \<le> (1 / 2) * u"
    using u round_even_error [of "x / u"] by (intro mult_right_mono) simp_all
  finally show ?thesis by (simp add: u_def)
qed

lemma two_powi_nat: "(2::rat) powi int n = of_int (2 ^ n)"
  by (simp add: power_int_def)

lemma fround_lower:
  assumes "0 < x" "1 \<le> p"
  shows "2 powi flog2 x \<le> fround p x"
proof -
  define u :: rat where "u = 2 powi (flog2 x - int p + 1)"
  have u: "0 < u" by (simp add: u_def)
  have e: "(2::rat) powi flog2 x = of_int (2 ^ (p - 1)) * u"
  proof -
    have "flog2 x = int (p - 1) + (flog2 x - int p + 1)" using assms(2) by simp
    then have "(2::rat) powi flog2 x = 2 powi int (p - 1) * 2 powi (flog2 x - int p + 1)"
      by (metis power_int_add zero_neq_numeral)
    then show ?thesis by (simp only: two_powi_nat u_def)
  qed
  have "of_int (2 ^ (p - 1)) \<le> x / u"
    using flog2_spec(1) [OF assms(1)] u unfolding e by (simp add: pos_le_divide_eq)
  then have "round_even (of_int (2 ^ (p - 1))) \<le> round_even (x / u)" by (rule round_even_mono)
  then have "(of_int (2 ^ (p - 1)) :: rat) \<le> of_int (round_even (x / u))"
    by (simp only: round_even_of_int of_int_le_iff)
  then have "of_int (2 ^ (p - 1)) * u \<le> of_int (round_even (x / u)) * u"
    using u by (intro mult_right_mono) simp_all
  then show ?thesis using assms(1) unfolding e by (simp add: fround_nz u_def)
qed

lemma fround_upper:
  assumes "0 < x"
  shows "fround p x \<le> 2 powi (flog2 x + 1)"
proof -
  define u :: rat where "u = 2 powi (flog2 x - int p + 1)"
  have u: "0 < u" by (simp add: u_def)
  have e: "(2::rat) powi (flog2 x + 1) = of_int (2 ^ p) * u"
  proof -
    have "flog2 x + 1 = int p + (flog2 x - int p + 1)" by simp
    then have "(2::rat) powi (flog2 x + 1) = 2 powi int p * 2 powi (flog2 x - int p + 1)"
      by (metis power_int_add zero_neq_numeral)
    then show ?thesis by (simp only: two_powi_nat u_def)
  qed
  have "x / u \<le> of_int (2 ^ p)"
    using flog2_spec(2) [OF assms(1)] u unfolding e by (simp add: pos_divide_le_eq)
  then have "round_even (x / u) \<le> round_even (of_int (2 ^ p))" by (rule round_even_mono)
  then have "(of_int (round_even (x / u)) :: rat) \<le> of_int (2 ^ p)"
    by (simp only: round_even_of_int of_int_le_iff)
  then have "of_int (round_even (x / u)) * u \<le> of_int (2 ^ p) * u"
    using u by (intro mult_right_mono) simp_all
  then show ?thesis using assms(1) unfolding e by (simp add: fround_nz u_def)
qed

lemma fround_pos: "0 < x \<Longrightarrow> 1 \<le> p \<Longrightarrow> 0 < fround p x"
  using fround_lower [of x p] two_powi_pos [of "flog2 x"] by linarith

lemma fround_mono_pos:
  assumes "0 < x" "x \<le> y" "1 \<le> p"
  shows "fround p x \<le> fround p y"
proof (cases "flog2 x = flog2 y")
  case True
  define u :: rat where "u = 2 powi (flog2 y - int p + 1)"
  have u: "0 < u" by (simp add: u_def)
  have "x / u \<le> y / u" using assms(2) u by (simp add: divide_right_mono)
  then have "round_even (x / u) \<le> round_even (y / u)" by (rule round_even_mono)
  then have "(of_int (round_even (x / u)) :: rat) * u \<le> of_int (round_even (y / u)) * u"
    using u by (intro mult_right_mono) simp_all
  then show ?thesis using assms(1,2) True by (simp add: fround_nz u_def)
next
  case False
  have y: "0 < y" using assms(1,2) by linarith
  have "flog2 x \<le> flog2 y" using assms(1,2) by (rule flog2_mono)
  with False have "flog2 x + 1 \<le> flog2 y" by simp
  then have "(2::rat) powi (flog2 x + 1) \<le> 2 powi flog2 y" by (rule two_powi_mono)
  with fround_upper [OF assms(1), of p] fround_lower [OF y assms(3)] show ?thesis by linarith
qed

lemma fround_mono:
  assumes "x \<le> y" "1 \<le> p"
  shows "fround p x \<le> fround p y"
proof -
  consider "0 < x" | "x \<le> 0" "0 \<le> y" | "y < 0" by linarith
  then show ?thesis
  proof cases
    case 1
    then show ?thesis using assms by (intro fround_mono_pos)
  next
    case 2
    have "fround p x \<le> 0"
    proof (cases "x = 0")
      case False
      with 2 have "0 < - x" by simp
      from fround_pos [OF this assms(2)] show ?thesis by (simp add: fround_minus)
    qed simp
    moreover have "0 \<le> fround p y"
    proof (cases "y = 0")
      case False
      with 2 have "0 < y" by simp
      from fround_pos [OF this assms(2)] show ?thesis by simp
    qed simp
    ultimately show ?thesis by linarith
  next
    case 3
    then have "0 < - y" "- y \<le> - x" using assms(1) by simp_all
    from fround_mono_pos [OF this assms(2)] show ?thesis by (simp add: fround_minus)
  qed
qed

lemma fround_rel:
  assumes "0 < x" "4 \<le> p"
  shows "15 / 16 * x \<le> fround p x" "fround p x \<le> 17 / 16 * x"
proof -
  have "flog2 x - int p + 1 \<le> flog2 x - 3" using assms(2) by simp
  then have "(2::rat) powi (flog2 x - int p + 1) \<le> 2 powi (flog2 x - 3)" by (rule two_powi_mono)
  also have "\<dots> = 2 powi flog2 x / 8" by (simp add: power_int_diff)
  also have "\<dots> \<le> x / 8" using flog2_spec(1) [OF assms(1)] by simp
  finally have "2 powi (flog2 x - int p + 1) / 2 \<le> x / 16" by simp
  with fround_error [of x p] assms(1) have "\<bar>fround p x - x\<bar> \<le> x / 16" by simp
  then show "15 / 16 * x \<le> fround p x" "fround p x \<le> 17 / 16 * x" by linarith+
qed

lemma fround_exact:
  assumes "\<bar>k\<bar> < 2 ^ p"
  shows "fround p (of_int k * 2 powi e) = of_int k * 2 powi e"
proof (cases "k = 0")
  case True
  then show ?thesis by simp
next
  case False
  define x :: rat where "x = of_int k * 2 powi e"
  have ax: "\<bar>x\<bar> = of_int \<bar>k\<bar> * 2 powi e" by (simp add: x_def abs_mult)
  have pos: "0 < \<bar>x\<bar>" using False by (simp add: x_def)
  define L where "L = flog2 \<bar>x\<bar>"
  have "(of_int \<bar>k\<bar> :: rat) < of_int (2 ^ p)" using assms by (simp only: of_int_less_iff)
  then have "\<bar>x\<bar> < of_int (2 ^ p) * 2 powi e" unfolding ax by (intro mult_strict_right_mono) simp_all
  also have "\<dots> = 2 powi (int p + e)" by (simp only: two_powi_nat [symmetric]) (simp add: power_int_add)
  finally have up: "\<bar>x\<bar> < 2 powi (int p + e)" .
  have "\<not> int p + e \<le> L"
  proof
    assume "int p + e \<le> L"
    then have "(2::rat) powi (int p + e) \<le> 2 powi L" by (rule two_powi_mono)
    with flog2_spec(1) [OF pos] up show False by (simp add: L_def)
  qed
  then have d: "0 \<le> e - (L - int p + 1)" by simp
  define n where "n = nat (e - (L - int p + 1))"
  have "e = int n + (L - int p + 1)" using d by (simp add: n_def)
  then have "(2::rat) powi e = 2 powi int n * 2 powi (L - int p + 1)"
    by (metis power_int_add zero_neq_numeral)
  then have pe: "(2::rat) powi e = of_int (2 ^ n) * 2 powi (L - int p + 1)"
    by (simp only: two_powi_nat)
  have q: "x / 2 powi (L - int p + 1) = of_int (k * 2 ^ n)"
    by (simp add: x_def pe)
  have "x \<noteq> 0" using pos by simp
  then have "fround p x = of_int (round_even (x / 2 powi (L - int p + 1))) * 2 powi (L - int p + 1)"
    by (simp add: fround_nz L_def)
  also have "\<dots> = of_int (k * 2 ^ n) * 2 powi (L - int p + 1)"
    by (simp only: q round_even_of_int)
  also have "\<dots> = x" by (simp add: x_def pe)
  finally show ?thesis by (simp add: x_def)
qed

lemma fround_of_int:
  assumes "\<bar>k\<bar> < 2 ^ p"
  shows "fround p (of_int k) = of_int k"
  using fround_exact [OF assms, of 0] by simp

lemma cround_small: "0 \<le> x \<Longrightarrow> x < 1 / 2 \<Longrightarrow> cround x = 0"
proof -
  assume a: "0 \<le> x" "x < 1 / 2"
  then have "\<lfloor>x + 1 / 2\<rfloor> = 0" by (intro floor_unique) simp_all
  with a show ?thesis by (simp add: cround_def)
qed

lemma cround_below_half:
  assumes "x < 1 / 2"
  shows "\<exists>n. cround x = of_int n \<and> n \<le> 0"
proof (cases "0 \<le> x")
  case True
  with assms show ?thesis using cround_small [of x] by (intro exI [of _ 0]) simp
next
  case False
  then have "0 \<le> \<lfloor>- x + 1 / 2\<rfloor>" by simp
  with False show ?thesis by (intro exI [of _ "- \<lfloor>- x + 1 / 2\<rfloor>"]) (simp add: cround_def)
qed

lemma cround_nonneg:
  assumes "0 \<le> x"
  shows "\<exists>n. cround x = of_int n \<and> 0 \<le> n"
  using assms by (intro exI [of _ "\<lfloor>x + 1 / 2\<rfloor>"]) (simp add: cround_def)

lemma i2f_mono: "i \<le> j \<Longrightarrow> i2f i \<le> i2f j"
  by (simp add: i2f_def f32_def fround_mono)

lemma f32_bounds:
  assumes "0 < x"
  shows "0 < f32 x" "f32 x \<le> 17 / 16 * x" "15 / 16 * x \<le> f32 x"
  using fround_pos [OF assms, of 24] fround_rel [OF assms, of 24] by (simp_all add: f32_def)

lemma f64_bounds:
  assumes "0 < x"
  shows "0 < f64 x" "f64 x \<le> 17 / 16 * x" "15 / 16 * x \<le> f64 x"
  using fround_pos [OF assms, of 53] fround_rel [OF assms, of 53] by (simp_all add: f64_def)

lemma f32_nonpos: "x \<le> 0 \<Longrightarrow> f32 x \<le> 0"
  using fround_mono [of x 0 24] by (simp add: f32_def)

lemma f64_nonpos: "x \<le> 0 \<Longrightarrow> f64 x \<le> 0"
  using fround_mono [of x 0 53] by (simp add: f64_def)

lemma f32_one_le: "1 \<le> n \<Longrightarrow> 1 \<le> f32 (of_int n)"
proof -
  assume "1 \<le> n"
  then have "(of_int 1 :: rat) \<le> of_int n" by (simp only: of_int_le_iff)
  then have "fround 24 (of_int 1) \<le> fround 24 (of_int n)" by (intro fround_mono) simp_all
  moreover have "fround 24 (of_int 1) = of_int 1" by (rule fround_of_int) simp
  ultimately show ?thesis by (simp add: f32_def)
qed

text \<open>The reciprocal of the period as the two loops compute it.\<close>

lemma recip_bounds:
  fixes X :: rat
  assumes "0 < X" "15 / 16 * X \<le> b"
  shows "0 < 1 / b" "1 / b \<le> 16 / 15 * (1 / X)"
proof -
  have b: "0 < b" using assms by linarith
  then show "0 < 1 / b" by simp
  have "16 / 15 * (1 / X) * (15 / 16 * X) \<le> 16 / 15 * (1 / X) * b"
    using assms by (intro mult_left_mono) simp_all
  moreover have "16 / 15 * (1 / X) * (15 / 16 * X) = 1" using assms(1) by simp
  ultimately have "1 \<le> 16 / 15 * (1 / X) * b" by simp
  then show "1 / b \<le> 16 / 15 * (1 / X)" using b by (simp add: pos_divide_le_eq)
qed

lemma initialFrequency_bounds:
  assumes "0 < initialPeriod s"
  shows "0 < initialFrequency s"
    "initialFrequency s \<le> 289 / 240 * (1 / of_int (initialPeriod s))"
proof -
  define X :: rat where "X = of_int (initialPeriod s)"
  have X: "0 < X" using assms by (simp add: X_def)
  note b = f64_bounds [OF X]
  note r = recip_bounds [OF X b(3)]
  note f1 = f64_bounds [OF r(1)]
  note f2 = f32_bounds [OF f1(1)]
  show "0 < initialFrequency s"
    using f2(1) by (simp add: initialFrequency_def i2d_def X_def)
  have "f32 (f64 (1 / f64 X)) \<le> 17 / 16 * (17 / 16 * (16 / 15 * (1 / X)))"
    using f2(2) f1(2) r(2) by linarith
  then show "initialFrequency s \<le> 289 / 240 * (1 / of_int (initialPeriod s))"
    by (simp add: initialFrequency_def i2d_def X_def)
qed

section \<open>The claims about the two inner loops\<close>

subsection \<open>A Nyquist violation ends the run\<close>

lemma ng_inner_abort_step:
  assumes "nedge s < length (edges s)" "nedge (ng_inner center s) = length (edges s)"
  shows "\<exists>s1. ng_more center s1 \<and> tlast s1 \<noteq> 0 \<and> iperiod (ng_corrected s1) < fnyquist s \<and>
           ng_inner center s = (ng_corrected s1)\<lparr>nedge := length (edges s)\<rparr>"
proof -
  have "nedge (ng_inner center s) = length (edges s) \<longrightarrow>
      (\<exists>s1. ng_more center s1 \<and> tlast s1 \<noteq> 0 \<and> iperiod (ng_corrected s1) < fnyquist s \<and>
           ng_inner center s = (ng_corrected s1)\<lparr>nedge := length (edges s)\<rparr>)"
  proof (rule ng_inner_rule [where
        Q = "\<lambda>t. edges t = edges s \<and> fnyquist t = fnyquist s \<and> nedge t < length (edges s)" and
        R = "\<lambda>r. nedge r = length (edges s) \<longrightarrow>
          (\<exists>s1. ng_more center s1 \<and> tlast s1 \<noteq> 0 \<and> iperiod (ng_corrected s1) < fnyquist s \<and>
             r = (ng_corrected s1)\<lparr>nedge := length (edges s)\<rparr>)"])
    show "edges s = edges s \<and> fnyquist s = fnyquist s \<and> nedge s < length (edges s)"
      using assms(1) by simp
  next
    fix t assume "edges t = edges s \<and> fnyquist t = fnyquist s \<and> nedge t < length (edges s)"
      and "ng_more center t" "tlast t \<noteq> 0" "iperiod (ng_corrected t) < fnyquist t"
    then show "nedge ((ng_corrected t)\<lparr>nedge := length (edges t)\<rparr>) = length (edges s) \<longrightarrow>
        (\<exists>s1. ng_more center s1 \<and> tlast s1 \<noteq> 0 \<and> iperiod (ng_corrected s1) < fnyquist s \<and>
           (ng_corrected t)\<lparr>nedge := length (edges t)\<rparr> = (ng_corrected s1)\<lparr>nedge := length (edges s)\<rparr>)"
      by (intro impI exI [of _ t]) simp
  qed (auto simp: ng_more_def edgemax_def size_dec_def split: if_splits)
  with assms(2) show ?thesis by simp
qed

lemma ng_abort_ends:
  assumes "edges s \<noteq> []" "ng_cond s"
    and "nedge (ng_inner (iperiod s sdiv 2) s) = length (edges s)"
  shows "while_option ng_cond ng_body s = Some (ng_body s)"
proof -
  have "\<not> ng_cond (ng_body s)"
    using assms(1,3) ng_body_frame [of s] by (intro ng_cond_stopped) (simp_all add: ng_body_nedge)
  then show ?thesis
    using assms(2) by (simp add: while_option_unfold [of ng_cond ng_body s]
        while_option_unfold [of ng_cond ng_body "ng_body s"])
qed

lemma g_inner_abort_step:
  assumes "nedge s < length (edges s)" "nedge (g_inner center s) = length (edges s)"
  shows "\<exists>t. g_more center t \<and> \<not> gating t \<and> tlast t \<noteq> 0 \<and> period (g_corrected t) < fnyquist s \<and>
           g_inner center s = (g_corrected t)\<lparr>nedge := length (edges s)\<rparr>"
proof -
  have "nedge (g_inner center s) = length (edges s) \<longrightarrow>
      (\<exists>t. g_more center t \<and> \<not> gating t \<and> tlast t \<noteq> 0 \<and> period (g_corrected t) < fnyquist s \<and>
           g_inner center s = (g_corrected t)\<lparr>nedge := length (edges s)\<rparr>)"
  proof (rule g_inner_rule [where
        Q = "\<lambda>t. edges t = edges s \<and> fnyquist t = fnyquist s \<and> nedge t < length (edges s)" and
        R = "\<lambda>r. nedge r = length (edges s) \<longrightarrow>
          (\<exists>t. g_more center t \<and> \<not> gating t \<and> tlast t \<noteq> 0 \<and> period (g_corrected t) < fnyquist s \<and>
             r = (g_corrected t)\<lparr>nedge := length (edges s)\<rparr>)"])
    show "edges s = edges s \<and> fnyquist s = fnyquist s \<and> nedge s < length (edges s)"
      using assms(1) by simp
  next
    fix t assume "edges t = edges s \<and> fnyquist t = fnyquist s \<and> nedge t < length (edges s)"
      and "g_more center t" "\<not> gating t" "tlast t \<noteq> 0" "period (g_corrected t) < fnyquist t"
    then show "nedge ((g_corrected t)\<lparr>nedge := length (edges t)\<rparr>) = length (edges s) \<longrightarrow>
        (\<exists>u. g_more center u \<and> \<not> gating u \<and> tlast u \<noteq> 0 \<and> period (g_corrected u) < fnyquist s \<and>
           (g_corrected t)\<lparr>nedge := length (edges t)\<rparr> = (g_corrected u)\<lparr>nedge := length (edges s)\<rparr>)"
      by (intro impI exI [of _ t]) simp
  qed (auto simp: g_more_def)
  with assms(2) show ?thesis by simp
qed

lemma g_abort_ends:
  assumes "edges s \<noteq> []" "g_cond s" "g_scan s = Inr s1"
    and "nedge (g_inner (i2f (period s sdiv 2)) s1) = length (edges s1)"
  shows "while_option g_continue g_step (Inr s) = Some (g_body s) \<and>
     g_body s = Inr (g_emit (g_inner (i2f (period s sdiv 2)) s1)) \<and>
     offsets (g_emit (g_inner (i2f (period s sdiv 2)) s1)) =
       offsets s @ [edgepos (g_inner (i2f (period s sdiv 2)) s1) +
                    period (g_inner (i2f (period s sdiv 2)) s1) sdiv 2] \<and>
     visits (g_emit (g_inner (i2f (period s sdiv 2)) s1)) =
       visits (g_inner (i2f (period s sdiv 2)) s1)"
proof -
  let ?s2 = "g_inner (i2f (period s sdiv 2)) s1"
  note fr = g_scan_frame [OF assms(3)]
  note fr2 = g_inner_frame [of "i2f (period s sdiv 2)" s1]
  have "nedge s1 < length (edges s1)"
    using assms(1,2) fr by (auto simp: g_cond_def size_dec_def)
  from g_inner_abort_step [OF this assms(4)] have ng: "\<not> gating ?s2"
    using fr2 by auto
  have body: "g_body s = Inr (g_emit ?s2)" by (simp add: g_body_eq assms(3))
  have "\<not> g_cond (g_emit ?s2)"
    using assms(1,4) fr fr2 by (intro g_cond_stopped) simp_all
  then have "while_option g_continue g_step (Inr s) = Some (g_body s)"
    using assms(2)
    by (simp add: while_option_unfold [of g_continue g_step "Inr s"]
        while_option_unfold [of g_continue g_step "Inr (g_emit ?s2)"]
        g_continue_def g_step_def body)
  moreover have "offsets (g_emit ?s2) = offsets s @ [edgepos ?s2 + period ?s2 sdiv 2]"
    using ng fr fr2 by simp
  moreover have "visits (g_emit ?s2) = visits ?s2"
    by (simp add: g_emit_def push_offset_def Let_def)
  ultimately show ?thesis using body by simp
qed

text \<open>
  C3, as the code has it. The period is compared with the Nyquist floor in one place,
  after the correction for a visited edge. When it is below the floor there, the inner
  loop returns at once, with \<open>nedge\<close> set to the number of edges: no further real edge is
  visited or corrected. An inner loop that ends with \<open>nedge\<close> at the number of edges has
  done just that at one of its visits, and an inner loop that starts with the period at
  or above the floor and ends with the period below it ends in this way. The iteration of
  the outer loop in which this happens still pushes its one output offset
  (\<open>edgepos + center\<close>, in the gated loop \<open>edgepos + period/2\<close>), visits no further edge
  and is the last one; the offsets pushed so far are what the caller receives. Stated
  for both loops, for a frame at the head of the inner loop and for a frame at the head
  of the outer loop; in the gated loop \<open>t1\<close> is the frame the gate search leaves.
\<close>

theorem nyquist_violation_ends_run:
  "(ng_more center s \<and> tlast s \<noteq> 0 \<and> iperiod (ng_corrected s) < fnyquist s \<longrightarrow>
      ng_inner center s = (ng_corrected s)\<lparr>nedge := length (edges s)\<rparr>) \<and>
   (fnyquist s0 \<le> iperiod s0 \<and> iperiod (ng_inner (iperiod s0 sdiv 2) s0) < fnyquist s0 \<longrightarrow>
      nedge (ng_inner (iperiod s0 sdiv 2) s0) = length (edges s0)) \<and>
   (edges s0 \<noteq> [] \<and> ng_cond s0 \<and> nedge (ng_inner (iperiod s0 sdiv 2) s0) = length (edges s0) \<longrightarrow>
      (\<exists>s1. ng_more (iperiod s0 sdiv 2) s1 \<and> tlast s1 \<noteq> 0 \<and>
          iperiod (ng_corrected s1) < fnyquist s0 \<and>
          ng_inner (iperiod s0 sdiv 2) s0 = (ng_corrected s1)\<lparr>nedge := length (edges s0)\<rparr>) \<and>
      while_option ng_cond ng_body s0 = Some (ng_body s0) \<and>
      offsets (ng_body s0) =
        offsets s0 @ [edgepos (ng_inner (iperiod s0 sdiv 2) s0) + iperiod s0 sdiv 2] \<and>
      visits (ng_body s0) = visits (ng_inner (iperiod s0 sdiv 2) s0)) \<and>
   (g_more fcenter t \<and> \<not> gating t \<and> tlast t \<noteq> 0 \<and> period (g_corrected t) < fnyquist t \<longrightarrow>
      g_inner fcenter t = (g_corrected t)\<lparr>nedge := length (edges t)\<rparr>) \<and>
   (fnyquist t1 \<le> period t1 \<and> period (g_inner (i2f (period t0 sdiv 2)) t1) < fnyquist t1 \<longrightarrow>
      nedge (g_inner (i2f (period t0 sdiv 2)) t1) = length (edges t1)) \<and>
   (edges t0 \<noteq> [] \<and> g_cond t0 \<and> g_scan t0 = Inr t1 \<and>
      nedge (g_inner (i2f (period t0 sdiv 2)) t1) = length (edges t1) \<longrightarrow>
      (\<exists>t2. g_more (i2f (period t0 sdiv 2)) t2 \<and> \<not> gating t2 \<and> tlast t2 \<noteq> 0 \<and>
          period (g_corrected t2) < fnyquist t0 \<and>
          g_inner (i2f (period t0 sdiv 2)) t1 = (g_corrected t2)\<lparr>nedge := length (edges t0)\<rparr>) \<and>
      while_option g_continue g_step (Inr t0) = Some (g_body t0) \<and>
      (\<exists>t3. g_body t0 = Inr t3 \<and>
         offsets t3 = offsets t0 @ [edgepos (g_inner (i2f (period t0 sdiv 2)) t1) +
                                    period (g_inner (i2f (period t0 sdiv 2)) t1) sdiv 2] \<and>
         visits t3 = visits (g_inner (i2f (period t0 sdiv 2)) t1)))"
proof (intro conjI impI)
  assume "ng_more center s \<and> tlast s \<noteq> 0 \<and> iperiod (ng_corrected s) < fnyquist s"
  then show "ng_inner center s = (ng_corrected s)\<lparr>nedge := length (edges s)\<rparr>"
    using ng_inner_abort [of center s] by simp
next
  assume "fnyquist s0 \<le> iperiod s0 \<and> iperiod (ng_inner (iperiod s0 sdiv 2) s0) < fnyquist s0"
  then show "nedge (ng_inner (iperiod s0 sdiv 2) s0) = length (edges s0)"
    using ng_inner_period [of s0 "iperiod s0 sdiv 2"] by auto
next
  assume a: "edges s0 \<noteq> [] \<and> ng_cond s0 \<and>
      nedge (ng_inner (iperiod s0 sdiv 2) s0) = length (edges s0)"
  then have "nedge s0 < length (edges s0)"
    by (auto simp: ng_cond_def edgemax_def size_dec_def)
  then show "\<exists>s1. ng_more (iperiod s0 sdiv 2) s1 \<and> tlast s1 \<noteq> 0 \<and>
          iperiod (ng_corrected s1) < fnyquist s0 \<and>
          ng_inner (iperiod s0 sdiv 2) s0 = (ng_corrected s1)\<lparr>nedge := length (edges s0)\<rparr>"
    using a by (intro ng_inner_abort_step) simp_all
  from a show "while_option ng_cond ng_body s0 = Some (ng_body s0)"
    by (intro ng_abort_ends) simp_all
  show "offsets (ng_body s0) =
      offsets s0 @ [edgepos (ng_inner (iperiod s0 sdiv 2) s0) + iperiod s0 sdiv 2]"
    by (rule ng_body_offsets)
  show "visits (ng_body s0) = visits (ng_inner (iperiod s0 sdiv 2) s0)"
    by (rule ng_body_visits)
next
  assume "g_more fcenter t \<and> \<not> gating t \<and> tlast t \<noteq> 0 \<and> period (g_corrected t) < fnyquist t"
  then show "g_inner fcenter t = (g_corrected t)\<lparr>nedge := length (edges t)\<rparr>"
    using g_inner_abort [of fcenter t] by simp
next
  assume "fnyquist t1 \<le> period t1 \<and> period (g_inner (i2f (period t0 sdiv 2)) t1) < fnyquist t1"
  then show "nedge (g_inner (i2f (period t0 sdiv 2)) t1) = length (edges t1)"
    using g_inner_nyquist [of t1 "i2f (period t0 sdiv 2)"] by auto
next
  assume a: "edges t0 \<noteq> [] \<and> g_cond t0 \<and> g_scan t0 = Inr t1 \<and>
      nedge (g_inner (i2f (period t0 sdiv 2)) t1) = length (edges t1)"
  then have scan: "g_scan t0 = Inr t1" by simp
  note fr = g_scan_frame [OF scan]
  have "nedge t1 < length (edges t1)"
    using a fr by (auto simp: g_cond_def size_dec_def)
  from g_inner_abort_step [OF this, of "i2f (period t0 sdiv 2)"] a fr
  show "\<exists>t2. g_more (i2f (period t0 sdiv 2)) t2 \<and> \<not> gating t2 \<and> tlast t2 \<noteq> 0 \<and>
          period (g_corrected t2) < fnyquist t0 \<and>
          g_inner (i2f (period t0 sdiv 2)) t1 = (g_corrected t2)\<lparr>nedge := length (edges t0)\<rparr>"
    by simp
  from a have e: "while_option g_continue g_step (Inr t0) = Some (g_body t0) \<and>
     g_body t0 = Inr (g_emit (g_inner (i2f (period t0 sdiv 2)) t1)) \<and>
     offsets (g_emit (g_inner (i2f (period t0 sdiv 2)) t1)) =
       offsets t0 @ [edgepos (g_inner (i2f (period t0 sdiv 2)) t1) +
                    period (g_inner (i2f (period t0 sdiv 2)) t1) sdiv 2] \<and>
     visits (g_emit (g_inner (i2f (period t0 sdiv 2)) t1)) =
       visits (g_inner (i2f (period t0 sdiv 2)) t1)"
    by (intro g_abort_ends) simp_all
  then show "while_option g_continue g_step (Inr t0) = Some (g_body t0)" by simp
  from e show "\<exists>t3. g_body t0 = Inr t3 \<and>
         offsets t3 = offsets t0 @ [edgepos (g_inner (i2f (period t0 sdiv 2)) t1) +
                                    period (g_inner (i2f (period t0 sdiv 2)) t1) sdiv 2] \<and>
         visits t3 = visits (g_inner (i2f (period t0 sdiv 2)) t1)"
    by simp
qed

lemma c3_ng_head_facts:
  "edges c3_ng_head \<noteq> []" "ng_cond c3_ng_head" "fnyquist c3_ng_head \<le> iperiod c3_ng_head"
  "iperiod c3_ng_head sdiv 2 = 500" "offsets c3_ng_head = [500, 1500]"
  by (simp_all add: c3_ng_head_def ng_eval float_eval)

lemma c3_g_head_facts:
  "edges c3_g_head \<noteq> []" "g_cond c3_g_head" "g_scan c3_g_head = Inr c3_g_head"
  "fnyquist c3_g_head \<le> period c3_g_head" "i2f (period c3_g_head sdiv 2) = i2f 500"
  "offsets c3_g_head = [500, 1500]"
  by (simp_all add: c3_g_head_def g_cond_def g_scan_def size_dec_def signed_divide_int_def)

theorem nyquist_violation_ends_run_witness:
  "ng_inner 500 c3_ng_step = (ng_corrected c3_ng_step)\<lparr>nedge := 4\<rparr> \<and>
   nedge (ng_inner 500 c3_ng_head) = 4 \<and>
   (\<exists>s1. ng_more 500 s1 \<and> tlast s1 \<noteq> 0 \<and> iperiod (ng_corrected s1) < 1000 \<and>
        ng_inner 500 c3_ng_head = (ng_corrected s1)\<lparr>nedge := 4\<rparr>) \<and>
   while_option ng_cond ng_body c3_ng_head = Some (ng_body c3_ng_head) \<and>
   offsets (ng_body c3_ng_head) = [500, 1500, 2498] \<and>
   visits (ng_body c3_ng_head) = [(1, False, False), (2, False, True)] \<and>
   g_inner (i2f 500) c3_g_step = (g_corrected c3_g_step)\<lparr>nedge := 4\<rparr> \<and>
   nedge (g_inner (i2f 500) c3_g_head) = 4 \<and>
   while_option g_continue g_step (Inr c3_g_head) = Some (g_body c3_g_head) \<and>
   (\<exists>t3. g_body c3_g_head = Inr t3 \<and> offsets t3 = [500, 1500, 2497] \<and>
        visits t3 = [(1, False, False), (2, False, True)]) \<and>
   period c10_frame < fnyquist c10_frame \<and>
   (\<exists>t2. g_more (i2f 50000) t2 \<and> \<not> gating t2 \<and> tlast t2 \<noteq> 0 \<and> period (g_corrected t2) < 200000 \<and>
        g_inner (i2f 50000) c10_frame = (g_corrected t2)\<lparr>nedge := 5\<rparr>) \<and>
   while_option g_continue g_step (Inr c10_frame) = Some (g_body c10_frame) \<and>
   (\<exists>t3. g_body c10_frame = Inr t3 \<and> offsets t3 = [2550000, 2650250] \<and>
        visits t3 = [(1, False, False), (2, False, True)])"
proof -
  have h1: "ng_more 500 c3_ng_step \<and> tlast c3_ng_step \<noteq> 0 \<and>
      iperiod (ng_corrected c3_ng_step) < fnyquist c3_ng_step"
    by (simp add: c3_ng_step_more c3_ng_step_corrected) (simp add: c3_ng_step_def)
  have h2: "fnyquist c3_ng_head \<le> iperiod c3_ng_head \<and>
      iperiod (ng_inner (iperiod c3_ng_head sdiv 2) c3_ng_head) < fnyquist c3_ng_head"
    by (simp add: c3_ng_head_facts c3_ng_inner) (simp add: c3_ng_head_def)
  have h3: "edges c3_ng_head \<noteq> [] \<and> ng_cond c3_ng_head \<and>
      nedge (ng_inner (iperiod c3_ng_head sdiv 2) c3_ng_head) = length (edges c3_ng_head)"
    by (simp add: c3_ng_head_facts c3_ng_inner) (simp add: c3_ng_head_def)
  have h4: "g_more (i2f 500) c3_g_step \<and> \<not> gating c3_g_step \<and> tlast c3_g_step \<noteq> 0 \<and>
      period (g_corrected c3_g_step) < fnyquist c3_g_step"
    by (simp add: c3_g_step_more c3_g_step_corrected) (simp add: c3_g_step_def)
  have h5: "fnyquist c3_g_head \<le> period c3_g_head \<and>
      period (g_inner (i2f (period c3_g_head sdiv 2)) c3_g_head) < fnyquist c3_g_head"
    by (simp add: c3_g_head_facts c3_g_inner) (simp add: c3_g_head_def)
  have h6: "edges c3_g_head \<noteq> [] \<and> g_cond c3_g_head \<and> g_scan c3_g_head = Inr c3_g_head \<and>
      nedge (g_inner (i2f (period c3_g_head sdiv 2)) c3_g_head) = length (edges c3_g_head)"
    by (simp add: c3_g_head_facts c3_g_inner) (simp add: c3_g_head_def)
  have h7: "edges c10_frame \<noteq> [] \<and> g_cond c10_frame \<and> g_scan c10_frame = Inr c10_frame \<and>
      nedge (g_inner (i2f (period c10_frame sdiv 2)) c10_frame) = length (edges c10_frame)"
    by (simp add: c10_frame_facts c10_g_scan c10_g_inner)
  note th = nyquist_violation_ends_run
    [of 500 c3_ng_step c3_ng_head "i2f 500" c3_g_step c3_g_head c3_g_head]
  note th' = nyquist_violation_ends_run
    [of 500 c3_ng_step c3_ng_head "i2f 500" c3_g_step c10_frame c10_frame]
  note c1 = th [THEN conjunct1, THEN mp, OF h1]
  note c2 = th [THEN conjunct2, THEN conjunct1, THEN mp, OF h2]
  note c3 = th [THEN conjunct2, THEN conjunct2, THEN conjunct1, THEN mp, OF h3]
  note c4 = th [THEN conjunct2, THEN conjunct2, THEN conjunct2, THEN conjunct1, THEN mp, OF h4]
  note c5 = th [THEN conjunct2, THEN conjunct2, THEN conjunct2, THEN conjunct2, THEN conjunct1,
      THEN mp, OF h5]
  note c6 = th [THEN conjunct2, THEN conjunct2, THEN conjunct2, THEN conjunct2, THEN conjunct2,
      THEN mp, OF h6]
  note c7 = th' [THEN conjunct2, THEN conjunct2, THEN conjunct2, THEN conjunct2, THEN conjunct2,
      THEN mp, OF h7]
  have e1: "length (edges c3_ng_step) = 4" "length (edges c3_g_step) = 4"
    "length (edges c3_ng_head) = 4" "length (edges c3_g_head) = 4"
    "fnyquist c3_ng_head = 1000" "fnyquist c10_frame = 200000"
    by (simp_all add: c3_ng_step_def c3_g_step_def c3_ng_head_def c3_g_head_def c10_frame_def)
  have e2: "edgepos (ng_inner 500 c3_ng_head) = 1998"
    "visits (ng_inner 500 c3_ng_head) = [(1, False, False), (2, False, True)]"
    by (simp_all add: c3_ng_inner)
  have e3: "edgepos (g_inner (i2f 500) c3_g_head) = 1998" "period (g_inner (i2f 500) c3_g_head) = 999"
    "visits (g_inner (i2f 500) c3_g_head) = [(1, False, False), (2, False, True)]"
    by (simp_all add: c3_g_inner)
  have e4: "(999::int) sdiv 2 = 499" "(100000::int) sdiv 2 = 50000"
    by (simp_all add: signed_divide_int_def)
  have e5: "edgepos (g_inner (i2f 50000) c10_frame) = 2600250"
    "period (g_inner (i2f 50000) c10_frame) = 100000"
    "visits (g_inner (i2f 50000) c10_frame) = [(1, False, False), (2, False, True)]"
    by (simp_all add: c10_g_inner) (simp add: c10_frame_def)
  from c1 have "ng_inner 500 c3_ng_step = (ng_corrected c3_ng_step)\<lparr>nedge := 4\<rparr>"
    by (simp only: e1)
  moreover from c2 have "nedge (ng_inner 500 c3_ng_head) = 4"
    by (simp add: c3_ng_head_facts e1)
  moreover from c3 have
    "\<exists>s1. ng_more 500 s1 \<and> tlast s1 \<noteq> 0 \<and> iperiod (ng_corrected s1) < 1000 \<and>
        ng_inner 500 c3_ng_head = (ng_corrected s1)\<lparr>nedge := 4\<rparr>"
    and "while_option ng_cond ng_body c3_ng_head = Some (ng_body c3_ng_head)"
    and "offsets (ng_body c3_ng_head) = [500, 1500, 2498]"
    and "visits (ng_body c3_ng_head) = [(1, False, False), (2, False, True)]"
    by (simp_all add: c3_ng_head_facts e1 e2)
  moreover from c4 have "g_inner (i2f 500) c3_g_step = (g_corrected c3_g_step)\<lparr>nedge := 4\<rparr>"
    by (simp only: e1)
  moreover from c5 have "nedge (g_inner (i2f 500) c3_g_head) = 4"
    by (simp add: c3_g_head_facts e1)
  moreover from c6 have "while_option g_continue g_step (Inr c3_g_head) = Some (g_body c3_g_head)"
    and "\<exists>t3. g_body c3_g_head = Inr t3 \<and> offsets t3 = [500, 1500, 2497] \<and>
        visits t3 = [(1, False, False), (2, False, True)]"
    by (simp_all add: c3_g_head_facts e3 e4)
  moreover from c7 have
    "\<exists>t2. g_more (i2f 50000) t2 \<and> \<not> gating t2 \<and> tlast t2 \<noteq> 0 \<and> period (g_corrected t2) < 200000 \<and>
        g_inner (i2f 50000) c10_frame = (g_corrected t2)\<lparr>nedge := 5\<rparr>"
    and "while_option g_continue g_step (Inr c10_frame) = Some (g_body c10_frame)"
    and "\<exists>t3. g_body c10_frame = Inr t3 \<and> offsets t3 = [2550000, 2650250] \<and>
        visits t3 = [(1, False, False), (2, False, True)]"
    by (simp_all add: c10_frame_facts e1 e4 e5)
  ultimately show ?thesis by (simp add: c10_frame_facts)
qed

text \<open>
  C3 as stated fails on the run \<open>c3_call\<close>: the third iteration starts with the offsets
  500 and 1500 pushed, its inner loop corrects the period to 999 fs, below the floor of
  1000 fs, and leaves the offsets as they are; the function nevertheless returns three
  offsets, the last pushed after the violating correction.
\<close>

theorem nyquist_break_still_pushes:
  "(ng_body ^^ 2) (ng_init c3_call) = c3_ng_head \<and>
   offsets c3_ng_head = [500, 1500] \<and>
   iperiod (ng_inner 500 c3_ng_head) = 999 \<and> fnyquist (ng_inner 500 c3_ng_head) = 1000 \<and>
   offsets (ng_inner 500 c3_ng_head) = [500, 1500] \<and>
   map_option (map_sum id offsets) (InnerLoopWithNoGating c3_call) = Some (Inr [500, 1500, 2498])"
  by (simp add: c3_ng_head_reached c3_ng_head_facts c3_ng_inner c3_ng_run) (simp add: c3_ng_step_def)

subsection \<open>Refresh without output\<close>

lemma ng_no_iteration:
  assumes "length (edges c) \<le> 2" "edges c \<noteq> []"
  shows "InnerLoopWithNoGating c = Some (Inr (ng_init c))"
proof -
  have "\<not> ng_cond (ng_init c)"
    using assms by (auto simp: ng_cond_def ng_init_def edgemax_def size_dec_def)
  then show ?thesis
    using assms(2) by (simp add: InnerLoopWithNoGating_def while_option_unfold)
qed

lemma g_no_iteration:
  assumes "length (edges c) \<le> 2" "edges c \<noteq> []"
  shows "InnerLoopWithGating c gt = Some (Inr (g_init c gt))"
proof -
  have "\<not> g_cond (g_init c gt)"
    using assms by (auto simp: g_cond_def g_init_def size_dec_def)
  then show ?thesis
    using assms(2) by (simp add: InnerLoopWithGating_def while_option_unfold g_continue_def)
qed

lemma fill_squarewave_empty:
  "fill_squarewave avx2 [] = \<lparr>m_offsets = [], m_durations = [], m_samples = []\<rparr>"
  by (simp add: fill_squarewave_def FillSquarewaveAVX2_def FillSquarewaveGeneric_def resize_def
      Let_def fill_scalar.simps [of 0 0])

lemma refresh_few_edges:
  assumes "input_ok r" "crossings r \<noteq> []" "length (crossings r) \<le> 2"
    "2 * m_timescale r \<le> nominal_period r"
  shows "Refresh r = Some (Inr (Data \<lparr>m_offsets = [], m_durations = [], m_samples = []\<rparr>))"
proof -
  have e: "edges (refresh_call r) = crossings r" by (simp add: refresh_call_def)
  have "run_pll r = Some (Inr [])"
    using assms(2,3) ng_no_iteration [of "refresh_call r"] g_no_iteration [of "refresh_call r"]
    by (simp add: run_pll_def e ng_init_def g_init_def split: option.splits)
  then show ?thesis
    using assms by (simp add: Refresh_def fill_squarewave_empty)
qed

text \<open>
  C7, as the code has it. \<open>Refresh\<close> sets no data (a null waveform) when the input is
  not usable, when no crossing was found, and when the nominal period is below twice the
  input's timescale. With exactly one crossing and an admissible period it sets a
  waveform, which holds no sample: the inner loop is entered and leaves its frame as
  initialised, without an iteration.
\<close>

theorem refresh_without_output:
  "(\<not> input_ok r \<or> crossings r = [] \<or> nominal_period r < 2 * m_timescale r \<longrightarrow>
      Refresh r = Some (Inr NoData)) \<and>
   (input_ok r' \<and> length (crossings r') = 1 \<and> 2 * m_timescale r' \<le> nominal_period r' \<longrightarrow>
      Refresh r' = Some (Inr (Data \<lparr>m_offsets = [], m_durations = [], m_samples = []\<rparr>)) \<and>
      InnerLoopWithNoGating (refresh_call r') = Some (Inr (ng_init (refresh_call r'))) \<and>
      InnerLoopWithGating (refresh_call r') gt = Some (Inr (g_init (refresh_call r') gt)))"
proof (intro conjI impI)
  assume "\<not> input_ok r \<or> crossings r = [] \<or> nominal_period r < 2 * m_timescale r"
  then show "Refresh r = Some (Inr NoData)" by (auto simp: Refresh_def)
next
  assume a: "input_ok r' \<and> length (crossings r') = 1 \<and> 2 * m_timescale r' \<le> nominal_period r'"
  then have ne: "crossings r' \<noteq> []" "length (crossings r') \<le> 2" by auto
  show "Refresh r' = Some (Inr (Data \<lparr>m_offsets = [], m_durations = [], m_samples = []\<rparr>))"
    using a ne by (intro refresh_few_edges) simp_all
  show "InnerLoopWithNoGating (refresh_call r') = Some (Inr (ng_init (refresh_call r')))"
    using ne by (intro ng_no_iteration) (simp_all add: refresh_call_def)
  show "InnerLoopWithGating (refresh_call r') gt = Some (Inr (g_init (refresh_call r') gt))"
    using ne by (intro g_no_iteration) (simp_all add: refresh_call_def)
qed

theorem refresh_without_output_witness:
  "Refresh c7_no_edge = Some (Inr NoData) \<and>
   Refresh c7_one_edge = Some (Inr (Data \<lparr>m_offsets = [], m_durations = [], m_samples = []\<rparr>)) \<and>
   InnerLoopWithNoGating (refresh_call c7_one_edge) = Some (Inr (ng_init (refresh_call c7_one_edge))) \<and>
   InnerLoopWithGating (refresh_call c7_one_edge) (Some gate_low) =
     Some (Inr (g_init (refresh_call c7_one_edge) (Some gate_low)))"
proof -
  have h1: "\<not> input_ok c7_no_edge \<or> crossings c7_no_edge = [] \<or>
      nominal_period c7_no_edge < 2 * m_timescale c7_no_edge"
    by (simp add: c7_no_edge_def)
  have h2: "input_ok c7_one_edge \<and> length (crossings c7_one_edge) = 1 \<and>
      2 * m_timescale c7_one_edge \<le> nominal_period c7_one_edge"
    by (simp add: c7_one_edge_def)
  note th = refresh_without_output [of c7_no_edge c7_one_edge "Some gate_low"]
  from th [THEN conjunct1, THEN mp, OF h1] th [THEN conjunct2, THEN mp, OF h2]
  show ?thesis by simp
qed

text \<open>
  C7 as stated fails on an input with a single crossing: the output is a waveform without
  samples, not the no-data result.
\<close>

theorem refresh_one_edge_sets_waveform:
  "Refresh c7_one_edge = Some (Inr (Data \<lparr>m_offsets = [], m_durations = [], m_samples = []\<rparr>)) \<and>
   Refresh c7_one_edge \<noteq> Some (Inr NoData)"
proof -
  have "Refresh c7_one_edge = Some (Inr (Data \<lparr>m_offsets = [], m_durations = [], m_samples = []\<rparr>))"
    by (rule refresh_few_edges) (simp_all add: c7_one_edge_def)
  then show ?thesis by simp
qed

subsection \<open>Which visited edges are corrected\<close>

lemma ng_terms_visit:
  "ng_fdperiod (s\<lparr>visits := vs\<rparr>) t = ng_fdperiod s t"
  "ng_fdphase (s\<lparr>visits := vs\<rparr>) t = ng_fdphase s t"
  "ng_dphase (s\<lparr>visits := vs\<rparr>) t = ng_dphase s t"
  by (simp_all add: ng_fdperiod_def ng_fdphase_def ng_dphase_def ng_numUIs_def glitchCutoff_def
      initialFrequency_def visit_def Let_def)

lemma g_terms_visit:
  "g_dperiod (s\<lparr>visits := vs\<rparr>) t = g_dperiod s t"
  "g_dphase (s\<lparr>visits := vs\<rparr>) t = g_dphase s t"
  by (simp_all add: g_dperiod_def g_dphase_def g_numUIs_def visit_def Let_def)

lemma ng_visit_first:
  assumes "ng_more center u" "tlast u = 0"
  shows "ng_inner center u =
     ng_inner center (u\<lparr>visits := visits u @ [(nedge u, False, False)],
                        tlast := edges u ! nedge u, nedge := nedge u + 1\<rparr>)"
  using ng_inner_skip [OF assms] by (simp add: visit_def next_edge_def)

lemma ng_visit_corrected:
  assumes "ng_more center u" "tlast u \<noteq> 0"
  shows "(let tnext = edges u ! nedge u;
           errorTerm = f32 (f64 (f64 (ng_fdperiod u tnext * d_0_006) +
                                 f64 (ng_fdphase u tnext * d_0_002)));
           fp = f32 (fperiod u - errorTerm);
           bangbang = f2i (f64 (fp * d_0_0025));
           u1 = u\<lparr>visits := visits u @ [(nedge u, False, True)], fperiod := fp, iperiod := f2i fp,
                  edgepos := (if ng_dphase u tnext > 0 then edgepos u - bangbang
                              else edgepos u + bangbang)\<rparr>
       in ng_inner center u =
            (if f2i fp < fnyquist u then u1\<lparr>nedge := length (edges u)\<rparr>
             else ng_inner center (u1\<lparr>tlast := tnext, nedge := nedge u + 1\<rparr>)))"
proof -
  have c: "ng_corrected u =
      (let tnext = edges u ! nedge u;
           errorTerm = f32 (f64 (f64 (ng_fdperiod u tnext * d_0_006) +
                                 f64 (ng_fdphase u tnext * d_0_002)));
           fp = f32 (fperiod u - errorTerm);
           bangbang = f2i (f64 (fp * d_0_0025))
       in u\<lparr>visits := visits u @ [(nedge u, False, True)], fperiod := fp, iperiod := f2i fp,
             edgepos := (if ng_dphase u tnext > 0 then edgepos u - bangbang
                         else edgepos u + bangbang)\<rparr>)"
    by (simp add: ng_corrected_def ng_correct_def ng_terms_visit Let_def visit_def)
  show ?thesis
  proof (cases "iperiod (ng_corrected u) < fnyquist u")
    case True
    from ng_inner_abort [OF assms] True show ?thesis
      by (simp add: Let_def) (simp add: c Let_def)
  next
    case False
    from ng_inner_corr [OF assms] False show ?thesis
      by (simp add: Let_def) (simp add: c Let_def next_edge_def)
  qed
qed

lemma g_visit_gated:
  assumes "g_more center v" "gating v"
  shows "g_inner center v =
     g_inner center (v\<lparr>visits := visits v @ [(nedge v, True, False)],
                       tlast := edges v ! nedge v, nedge := nedge v + 1\<rparr>)"
  using g_inner_gated [OF assms] by (simp add: visit_def next_edge_def)

lemma g_visit_first:
  assumes "g_more center v" "\<not> gating v" "tlast v = 0"
  shows "g_inner center v =
     g_inner center (v\<lparr>visits := visits v @ [(nedge v, False, False)],
                       tlast := edges v ! nedge v, nedge := nedge v + 1\<rparr>)"
  using g_inner_skip [OF assms] by (simp add: visit_def next_edge_def)

lemma g_visit_corrected:
  assumes "g_more center v" "\<not> gating v" "tlast v \<noteq> 0"
  shows "(let tnext = edges v ! nedge v;
           p1 = f2i (f64 (i2d (period v) - f64 (i2d (g_dperiod v tnext) * d_0_006)));
           p2 = f2i (f64 (i2d p1 - f64 (i2d (g_dphase v tnext) * d_0_002)));
           v1 = v\<lparr>visits := visits v @ [(nedge v, False, True)], period := p2,
                  edgepos := (if g_dphase v tnext > 0 then edgepos v - p2 sdiv 400
                              else edgepos v + p2 sdiv 400)\<rparr>
       in g_inner center v =
            (if p2 < fnyquist v then v1\<lparr>nedge := length (edges v)\<rparr>
             else g_inner center (v1\<lparr>tlast := tnext, nedge := nedge v + 1\<rparr>)))"
proof -
  have c: "g_corrected v =
      (let tnext = edges v ! nedge v;
           p1 = f2i (f64 (i2d (period v) - f64 (i2d (g_dperiod v tnext) * d_0_006)));
           p2 = f2i (f64 (i2d p1 - f64 (i2d (g_dphase v tnext) * d_0_002)))
       in v\<lparr>visits := visits v @ [(nedge v, False, True)], period := p2,
             edgepos := (if g_dphase v tnext > 0 then edgepos v - p2 sdiv 400
                         else edgepos v + p2 sdiv 400)\<rparr>)"
    by (simp add: g_corrected_def g_correct_def g_terms_visit Let_def visit_def)
  show ?thesis
  proof (cases "period (g_corrected v) < fnyquist v")
    case True
    from g_inner_abort [OF assms] True show ?thesis
      by (simp add: Let_def) (simp add: c Let_def)
  next
    case False
    from g_inner_corr [OF assms] False show ?thesis
      by (simp add: Let_def) (simp add: c Let_def next_edge_def)
  qed
qed


text \<open>
  C8, as the code has it. The correction block runs for a visited real edge exactly when
  the loop is not gated at that visit and the edge is not the first one visited; this
  holds when no real edge after the first has the timestamp 0, which the code takes to
  mean that no edge was visited yet. In \<open>InnerLoopWithNoGating\<close> no visit is gated, so
  every visited edge except the first is corrected. The first two parts state this of
  the visits of a whole run. The other parts state what one visit does to the frame at
  the head of the inner loop. A visit without correction (the first one, or one while
  gated) changes \<open>tlast\<close>, \<open>nedge\<close> and the record of visits, and leaves the period and
  the edge position as they are. A visit with correction takes the frequency error times
  0.006 and the phase error times 0.002 off the period and then moves the edge position
  by 1/400 of the new period, back when the phase error is positive and forward
  otherwise, all in the arithmetic of the code: \<^verbatim>\<open>float\<close> and \<^verbatim>\<open>double\<close> in the non-gated
  loop, \<^verbatim>\<open>double\<close> and \<^verbatim>\<open>int64_t\<close> in the gated loop. The Nyquist test follows it.
\<close>

theorem correction_skips_first_visit_and_gated_visits:
  "(no_zero_edge (edges c) \<and> InnerLoopWithNoGating c = Some (Inr s) \<longrightarrow>
      corrected_rule (visits s) \<and> never_gated (visits s)) \<and>
   (no_zero_edge (edges c') \<and> InnerLoopWithGating c' gt = Some (Inr t) \<longrightarrow>
      corrected_rule (visits t)) \<and>
   (ng_more center uf \<and> tlast uf = 0 \<longrightarrow>
      ng_inner center uf =
        ng_inner center (uf\<lparr>visits := visits uf @ [(nedge uf, False, False)],
                            tlast := edges uf ! nedge uf, nedge := nedge uf + 1\<rparr>)) \<and>
   (ng_more center u \<and> tlast u \<noteq> 0 \<longrightarrow>
      (let tnext = edges u ! nedge u;
           errorTerm = f32 (f64 (f64 (ng_fdperiod u tnext * d_0_006) +
                                 f64 (ng_fdphase u tnext * d_0_002)));
           fp = f32 (fperiod u - errorTerm);
           bangbang = f2i (f64 (fp * d_0_0025));
           u1 = u\<lparr>visits := visits u @ [(nedge u, False, True)], fperiod := fp, iperiod := f2i fp,
                  edgepos := (if ng_dphase u tnext > 0 then edgepos u - bangbang
                              else edgepos u + bangbang)\<rparr>
       in ng_inner center u =
            (if f2i fp < fnyquist u then u1\<lparr>nedge := length (edges u)\<rparr>
             else ng_inner center (u1\<lparr>tlast := tnext, nedge := nedge u + 1\<rparr>)))) \<and>
   (g_more fcenter vg \<and> gating vg \<longrightarrow>
      g_inner fcenter vg =
        g_inner fcenter (vg\<lparr>visits := visits vg @ [(nedge vg, True, False)],
                            tlast := edges vg ! nedge vg, nedge := nedge vg + 1\<rparr>)) \<and>
   (g_more fcenter vf \<and> \<not> gating vf \<and> tlast vf = 0 \<longrightarrow>
      g_inner fcenter vf =
        g_inner fcenter (vf\<lparr>visits := visits vf @ [(nedge vf, False, False)],
                            tlast := edges vf ! nedge vf, nedge := nedge vf + 1\<rparr>)) \<and>
   (g_more fcenter v \<and> \<not> gating v \<and> tlast v \<noteq> 0 \<longrightarrow>
      (let tnext = edges v ! nedge v;
           p1 = f2i (f64 (i2d (period v) - f64 (i2d (g_dperiod v tnext) * d_0_006)));
           p2 = f2i (f64 (i2d p1 - f64 (i2d (g_dphase v tnext) * d_0_002)));
           v2 = v\<lparr>visits := visits v @ [(nedge v, False, True)], period := p2,
                  edgepos := (if g_dphase v tnext > 0 then edgepos v - p2 sdiv 400
                              else edgepos v + p2 sdiv 400)\<rparr>
       in g_inner fcenter v =
            (if p2 < fnyquist v then v2\<lparr>nedge := length (edges v)\<rparr>
             else g_inner fcenter (v2\<lparr>tlast := tnext, nedge := nedge v + 1\<rparr>))))"
proof (intro conjI impI)
  assume "no_zero_edge (edges c) \<and> InnerLoopWithNoGating c = Some (Inr s)"
  then show "corrected_rule (visits s)" "never_gated (visits s)"
    using ng_visits [of c s] by simp_all
next
  assume "no_zero_edge (edges c') \<and> InnerLoopWithGating c' gt = Some (Inr t)"
  then show "corrected_rule (visits t)"
    using g_visits [of c' gt t] by simp
next
  assume "ng_more center uf \<and> tlast uf = 0"
  then show "ng_inner center uf =
        ng_inner center (uf\<lparr>visits := visits uf @ [(nedge uf, False, False)],
                            tlast := edges uf ! nedge uf, nedge := nedge uf + 1\<rparr>)"
    by (intro ng_visit_first) simp_all
next
  assume "ng_more center u \<and> tlast u \<noteq> 0"
  then show "(let tnext = edges u ! nedge u;
           errorTerm = f32 (f64 (f64 (ng_fdperiod u tnext * d_0_006) +
                                 f64 (ng_fdphase u tnext * d_0_002)));
           fp = f32 (fperiod u - errorTerm);
           bangbang = f2i (f64 (fp * d_0_0025));
           u1 = u\<lparr>visits := visits u @ [(nedge u, False, True)], fperiod := fp, iperiod := f2i fp,
                  edgepos := (if ng_dphase u tnext > 0 then edgepos u - bangbang
                              else edgepos u + bangbang)\<rparr>
       in ng_inner center u =
            (if f2i fp < fnyquist u then u1\<lparr>nedge := length (edges u)\<rparr>
             else ng_inner center (u1\<lparr>tlast := tnext, nedge := nedge u + 1\<rparr>)))"
    by (intro ng_visit_corrected) simp_all
next
  assume "g_more fcenter vg \<and> gating vg"
  then show "g_inner fcenter vg =
        g_inner fcenter (vg\<lparr>visits := visits vg @ [(nedge vg, True, False)],
                            tlast := edges vg ! nedge vg, nedge := nedge vg + 1\<rparr>)"
    by (intro g_visit_gated) simp_all
next
  assume "g_more fcenter vf \<and> \<not> gating vf \<and> tlast vf = 0"
  then show "g_inner fcenter vf =
        g_inner fcenter (vf\<lparr>visits := visits vf @ [(nedge vf, False, False)],
                            tlast := edges vf ! nedge vf, nedge := nedge vf + 1\<rparr>)"
    by (intro g_visit_first) simp_all
next
  assume "g_more fcenter v \<and> \<not> gating v \<and> tlast v \<noteq> 0"
  then show "(let tnext = edges v ! nedge v;
           p1 = f2i (f64 (i2d (period v) - f64 (i2d (g_dperiod v tnext) * d_0_006)));
           p2 = f2i (f64 (i2d p1 - f64 (i2d (g_dphase v tnext) * d_0_002)));
           v2 = v\<lparr>visits := visits v @ [(nedge v, False, True)], period := p2,
                  edgepos := (if g_dphase v tnext > 0 then edgepos v - p2 sdiv 400
                              else edgepos v + p2 sdiv 400)\<rparr>
       in g_inner fcenter v =
            (if p2 < fnyquist v then v2\<lparr>nedge := length (edges v)\<rparr>
             else g_inner fcenter (v2\<lparr>tlast := tnext, nedge := nedge v + 1\<rparr>)))"
    by (intro g_visit_corrected) simp_all
qed

lemma c3_ng_final_run: "InnerLoopWithNoGating c3_call = Some (Inr c3_ng_final)"
  by (simp add: InnerLoopWithNoGating_def c3_call_def c3_ng_final_def while_option_unfold
      ng_eval float_eval)

lemma c8_final_run: "InnerLoopWithGating c8_call (Some gate_low) = Some (Inr c8_final)"
  by (simp add: InnerLoopWithGating_def c8_call_def c8_final_def gate_low_def while_option_unfold
      g_eval float_eval)

lemma c8_head_reached:
  "g_scan c8_head = Inr c8_head \<and>
   g_step (g_step (Inr (g_init c8_call (Some gate_low)))) = Inr c8_head"
  by (simp add: c8_call_def c8_head_def gate_low_def g_eval float_eval)

lemma c8_head_more: "g_more (i2f 500) c8_head \<and> gating c8_head"
  by (simp add: c8_head_def g_eval float_eval)

lemma c3_step_values:
  "ng_fdperiod c3_ng_step 700 = 0" "ng_fdphase c3_ng_step 700 = 300"
  "ng_dphase c3_ng_step 700 = 300" "g_dperiod c3_g_step 700 = 0" "g_dphase c3_g_step 700 = 300"
  by (simp_all add: c3_ng_step_def c3_g_step_def ng_eval g_eval float_eval)

theorem correction_skips_first_visit_and_gated_visits_witness:
  "corrected_rule [(1, False, False), (2, False, True)] \<and>
   never_gated [(1, False, False), (2, False, True)] \<and>
   corrected_rule [(1, True, False), (2, True, False)] \<and>
   ng_inner 500 c3_ng_head = ng_inner 500 c3_ng_step \<and>
   ng_inner 500 c3_ng_step =
     c3_ng_step\<lparr>visits := [(1, False, False), (2, False, True)], fperiod := 8187085 / 8192,
       iperiod := 999, edgepos := 1998, nedge := 4\<rparr> \<and>
   g_inner (i2f 500) c8_head =
     g_inner (i2f 500) (c8_head\<lparr>visits := [(1, True, False)], tlast := 600, nedge := 2\<rparr>) \<and>
   g_inner (i2f 500) c3_g_head = g_inner (i2f 500) c3_g_step \<and>
   g_inner (i2f 500) c3_g_step =
     c3_g_step\<lparr>visits := [(1, False, False), (2, False, True)], period := 999,
       edgepos := 1998, nedge := 4\<rparr>"
proof -
  have h1: "no_zero_edge (edges c3_call) \<and> InnerLoopWithNoGating c3_call = Some (Inr c3_ng_final)"
    by (simp add: c3_ng_final_run) (simp add: c3_call_def no_zero_edge_def)
  have h2: "no_zero_edge (edges c8_call) \<and>
      InnerLoopWithGating c8_call (Some gate_low) = Some (Inr c8_final)"
    by (simp add: c8_final_run) (simp add: c8_call_def no_zero_edge_def)
  have h3: "ng_more 500 c3_ng_head \<and> tlast c3_ng_head = 0"
    by (simp add: c3_ng_head_def ng_eval)
  have h4: "ng_more 500 c3_ng_step \<and> tlast c3_ng_step \<noteq> 0"
    by (simp add: c3_ng_step_more) (simp add: c3_ng_step_def)
  have h5: "g_more (i2f 500) c8_head \<and> gating c8_head"
    by (rule c8_head_more)
  have h6: "g_more (i2f 500) c3_g_head \<and> \<not> gating c3_g_head \<and> tlast c3_g_head = 0"
    by (simp add: c3_g_head_def g_eval float_eval)
  have h7: "g_more (i2f 500) c3_g_step \<and> \<not> gating c3_g_step \<and> tlast c3_g_step \<noteq> 0"
    by (simp add: c3_g_step_more) (simp add: c3_g_step_def)
  note th = correction_skips_first_visit_and_gated_visits
    [where c = c3_call and s = c3_ng_final and c' = c8_call and gt = "Some gate_low"
       and t = c8_final and center = 500 and uf = c3_ng_head and u = c3_ng_step
       and fcenter = "i2f 500" and vg = c8_head and vf = c3_g_head and v = c3_g_step]
  note c1 = th [THEN conjunct1, THEN mp, OF h1]
  note c2 = th [THEN conjunct2, THEN conjunct1, THEN mp, OF h2]
  note c3 = th [THEN conjunct2, THEN conjunct2, THEN conjunct1, THEN mp, OF h3]
  note c4 = th [THEN conjunct2, THEN conjunct2, THEN conjunct2, THEN conjunct1, THEN mp, OF h4]
  note c5 = th [THEN conjunct2, THEN conjunct2, THEN conjunct2, THEN conjunct2, THEN conjunct1,
      THEN mp, OF h5]
  note c6 = th [THEN conjunct2, THEN conjunct2, THEN conjunct2, THEN conjunct2, THEN conjunct2,
      THEN conjunct1, THEN mp, OF h6]
  note c7 = th [THEN conjunct2, THEN conjunct2, THEN conjunct2, THEN conjunct2, THEN conjunct2,
      THEN conjunct2, THEN mp, OF h7]
  have e: "edges c3_ng_step ! nedge c3_ng_step = 700" "edges c3_g_step ! nedge c3_g_step = 700"
    by (simp_all add: c3_ng_step_def c3_g_step_def)
  have v: "fperiod c3_ng_step = 1000" "edgepos c3_ng_step = 2000" "fnyquist c3_ng_step = 1000"
    "visits c3_ng_step = [(1, False, False)]" "nedge c3_ng_step = 2" "length (edges c3_ng_step) = 4"
    by (simp_all add: c3_ng_step_def)
  have w: "period c3_g_step = 1000" "edgepos c3_g_step = 2000" "fnyquist c3_g_step = 1000"
    "visits c3_g_step = [(1, False, False)]" "nedge c3_g_step = 2" "length (edges c3_g_step) = 4"
    by (simp_all add: c3_g_step_def)
  have fp: "f32 (fperiod c3_ng_step - f32 (f64 (f64 (ng_fdperiod c3_ng_step 700 * d_0_006) +
      f64 (ng_fdphase c3_ng_step 700 * d_0_002)))) = 8187085 / 8192"
    by (simp add: c3_step_values v float_eval)
  have bb: "f2i (f64 (8187085 / 8192 * d_0_0025)) = 2" "f2i (8187085 / 8192) = 999"
    by (simp_all add: float_eval)
  have gp: "f2i (f64 (i2d (f2i (f64 (i2d (period c3_g_step) -
      f64 (i2d (g_dperiod c3_g_step 700) * d_0_006)))) -
      f64 (i2d (g_dphase c3_g_step 700) * d_0_002))) = 999"
    by (simp add: c3_step_values w float_eval)
  have gb: "(999::int) sdiv 400 = 2"
    by (simp add: signed_divide_int_def)
  have n: "c3_ng_head\<lparr>visits := visits c3_ng_head @ [(nedge c3_ng_head, False, False)],
      tlast := edges c3_ng_head ! nedge c3_ng_head, nedge := nedge c3_ng_head + 1\<rparr> = c3_ng_step"
    "c3_g_head\<lparr>visits := visits c3_g_head @ [(nedge c3_g_head, False, False)],
      tlast := edges c3_g_head ! nedge c3_g_head, nedge := nedge c3_g_head + 1\<rparr> = c3_g_step"
    "c8_head\<lparr>visits := visits c8_head @ [(nedge c8_head, True, False)],
      tlast := edges c8_head ! nedge c8_head, nedge := nedge c8_head + 1\<rparr> =
     c8_head\<lparr>visits := [(1, True, False)], tlast := 600, nedge := 2\<rparr>"
    by (simp_all add: c3_ng_head_def c3_ng_step_def c3_g_head_def c3_g_step_def c8_head_def)
  from c1 have "corrected_rule [(1, False, False), (2, False, True)]"
    and "never_gated [(1, False, False), (2, False, True)]"
    by (simp_all add: c3_ng_final_def)
  moreover from c2 have "corrected_rule [(1, True, False), (2, True, False)]"
    by (simp add: c8_final_def)
  moreover from c3 have "ng_inner 500 c3_ng_head = ng_inner 500 c3_ng_step"
    by (simp only: n)
  moreover from c4 have "ng_inner 500 c3_ng_step =
     c3_ng_step\<lparr>visits := [(1, False, False), (2, False, True)], fperiod := 8187085 / 8192,
       iperiod := 999, edgepos := 1998, nedge := 4\<rparr>"
    by (simp only: Let_def e fp bb) (simp add: v c3_step_values)
  moreover from c5 have "g_inner (i2f 500) c8_head =
     g_inner (i2f 500) (c8_head\<lparr>visits := [(1, True, False)], tlast := 600, nedge := 2\<rparr>)"
    by (simp only: n)
  moreover from c6 have "g_inner (i2f 500) c3_g_head = g_inner (i2f 500) c3_g_step"
    by (simp only: n)
  moreover from c7 have "g_inner (i2f 500) c3_g_step =
     c3_g_step\<lparr>visits := [(1, False, False), (2, False, True)], period := 999,
       edgepos := 1998, nedge := 4\<rparr>"
    by (simp only: Let_def e gp) (simp add: w c3_step_values gb)
  ultimately show ?thesis by simp
qed

text \<open>
  C8 as stated fails under a gate that is low: the loop visits the real edges 1 and 2 and
  corrects neither, though edge 2 is not the first edge visited.
\<close>

theorem gated_visit_is_not_corrected:
  "map_option (map_sum id visits) (InnerLoopWithGating c8_call (Some gate_low)) =
     Some (Inr [(1, True, False), (2, True, False)])"
  by (simp add: c8_final_run) (simp add: c8_final_def)

subsection \<open>Gate reads\<close>

text \<open>
  C9. Every read of the gate is to use an index below the gate's sample count, and a
  gate without samples is to cause no read at all. With a gate of no samples and three
  or more edges, the first iteration evaluates \<^verbatim>\<open>igate < gate->size()-1\<close> as
  \<open>0 < 2\<^sup>6\<^sup>4 - 1\<close> and reads the offset of sample 0, outside the waveform. (With one
  sample or more all reads are in range: \<open>gate_reads_in_range\<close>.)
\<close>

theorem empty_gate_is_read:
  "gate_size gate_empty = 0 \<and>
   InnerLoopWithGating c3_call (Some gate_empty) = Some (Inl GateIndexOutOfRange)"
  by (simp add: InnerLoopWithGating_def c3_call_def gate_empty_def while_option_unfold g_eval)

subsection \<open>The period after a reacquisition\<close>

lemma c10_dup_reached:
  "g_continue (Inr (g_init c10_dup_call (Some c10_gate)))"
  "g_continue (g_step (Inr (g_init c10_dup_call (Some c10_gate))))"
  "g_continue (g_step (g_step (Inr (g_init c10_dup_call (Some c10_gate)))))"
  "g_continue (g_step (g_step (g_step (Inr (g_init c10_dup_call (Some c10_gate))))))"
  "g_step (g_step (g_step (g_step (Inr (g_init c10_dup_call (Some c10_gate)))))) =
     Inr (c10_stuck [2400000])"
  by (simp_all add: c10_dup_call_def c10_gate_def c10_stuck_def g_eval float_eval)

lemma c10_stuck_step:
  "g_continue (Inr (c10_stuck xs))"
  "g_step (Inr (c10_stuck xs)) = Inr (c10_stuck (xs @ [2400000]))"
  by (simp_all add: c10_gate_def c10_stuck_def g_eval float_eval)

lemma c10_stuck_forever: "\<exists>ys. (g_step ^^ k) (Inr (c10_stuck xs)) = Inr (c10_stuck ys)"
  by (induction k) (auto simp: c10_stuck_step)

lemma c10_stuck_None: "while_option g_continue g_step (Inr (c10_stuck xs)) = None"
proof (cases "while_option g_continue g_step (Inr (c10_stuck xs))")
  case None
  then show ?thesis .
next
  case (Some r)
  from while_option_stop2 [OF Some] obtain k
    where "r = (g_step ^^ k) (Inr (c10_stuck xs))" and "\<not> g_continue r" by blast
  with c10_stuck_forever [of k xs] c10_stuck_step(1) show ?thesis by auto
qed

lemma c10_dup_None: "InnerLoopWithGating c10_dup_call (Some c10_gate) = None"
proof -
  let ?s = "Inr (g_init c10_dup_call (Some c10_gate))"
  have "while_option g_continue g_step ?s = while_option g_continue g_step (g_step ?s)"
    by (subst while_option_unfold) (simp add: c10_dup_reached(1))
  also have "\<dots> = while_option g_continue g_step (g_step (g_step ?s))"
    by (subst while_option_unfold) (simp add: c10_dup_reached(2))
  also have "\<dots> = while_option g_continue g_step (g_step (g_step (g_step ?s)))"
    by (subst while_option_unfold) (simp add: c10_dup_reached(3))
  also have "\<dots> = while_option g_continue g_step (g_step (g_step (g_step (g_step ?s))))"
    by (subst while_option_unfold) (simp add: c10_dup_reached(4))
  also have "\<dots> = None"
    by (simp only: c10_dup_reached(5) c10_stuck_None)
  finally show ?thesis by (simp add: InnerLoopWithGating_def c10_dup_call_def)
qed

text \<open>
  C10. While a loop goes on, the period is to stay at or above the Nyquist floor, and
  both loops are to return on every finite edge sequence. \<open>InnerLoopWithGating\<close> compares
  the period with the floor only after the correction for a visited edge; a reacquisition
  assigns the average interval to the period without the comparison. On \<open>c10_call\<close>
  (strictly increasing edges, initial period 800000 fs, floor 200000 fs) under \<open>c10_gate\<close>
  the fourth iteration reacquires a period of 100000 fs and the loop goes on with it; the
  run returns two offsets 100250 fs apart. On \<open>c10_dup_call\<close>, where the edges after the
  gate opens share one timestamp, the reacquired period is 0: the edge position stays
  where it is, every further iteration pushes the same offset, and the loop never exits.
  (\<open>InnerLoopWithNoGating\<close> keeps the floor and returns: \<open>ng_period_at_head\<close>,
  \<open>ng_terminates\<close>; \<open>InnerLoopWithGating\<close> returns on strictly increasing edges:
  \<open>g_terminates\<close>.)
\<close>

theorem reacquisition_is_not_checked:
  "sorted_wrt (<) (edges c10_call) \<and>
   1 \<le> fnyquist c10_call \<and> fnyquist c10_call \<le> initialPeriod c10_call \<and>
   g_continue (Inr (g_init c10_call (Some c10_gate))) \<and>
   g_continue (g_step (Inr (g_init c10_call (Some c10_gate)))) \<and>
   g_continue (g_step (g_step (Inr (g_init c10_call (Some c10_gate))))) \<and>
   g_continue (g_step (g_step (g_step (Inr (g_init c10_call (Some c10_gate)))))) \<and>
   g_step (g_step (g_step (g_step (Inr (g_init c10_call (Some c10_gate)))))) = Inr c10_frame \<and>
   g_continue (Inr c10_frame) \<and> period c10_frame = 100000 \<and> fnyquist c10_frame = 200000 \<and>
   map_option (map_sum id offsets) (InnerLoopWithGating c10_call (Some c10_gate)) =
     Some (Inr [2550000, 2650250]) \<and>
   1 \<le> fnyquist c10_dup_call \<and> fnyquist c10_dup_call \<le> initialPeriod c10_dup_call \<and>
   InnerLoopWithGating c10_dup_call (Some c10_gate) = None"
proof -
  have "sorted_wrt (<) (edges c10_call) \<and>
   1 \<le> fnyquist c10_call \<and> fnyquist c10_call \<le> initialPeriod c10_call \<and>
   g_continue (Inr (g_init c10_call (Some c10_gate))) \<and>
   g_continue (g_step (Inr (g_init c10_call (Some c10_gate)))) \<and>
   g_continue (g_step (g_step (Inr (g_init c10_call (Some c10_gate))))) \<and>
   g_continue (g_step (g_step (g_step (Inr (g_init c10_call (Some c10_gate)))))) \<and>
   g_step (g_step (g_step (g_step (Inr (g_init c10_call (Some c10_gate)))))) = Inr c10_frame \<and>
   g_continue (Inr c10_frame) \<and> period c10_frame = 100000 \<and> fnyquist c10_frame = 200000 \<and>
   map_option (map_sum id offsets) (InnerLoopWithGating c10_call (Some c10_gate)) =
     Some (Inr [2550000, 2650250])"
    by (simp add: InnerLoopWithGating_def c10_call_def c10_gate_def c10_frame_def
        while_option_unfold g_eval float_eval)
  moreover have "1 \<le> fnyquist c10_dup_call \<and> fnyquist c10_dup_call \<le> initialPeriod c10_dup_call"
    by (simp add: c10_dup_call_def)
  ultimately show ?thesis using c10_dup_None by blast
qed

subsection \<open>Order of the output offsets\<close>

text \<open>
  C6. The output offsets are to be strictly increasing, with or without a gate. The
  gated loop holds \<open>center\<close> in a \<^verbatim>\<open>float\<close>, so \<^verbatim>\<open>tnext + center < edgepos\<close> compares
  values rounded to 24 bits, where the non-gated loop compares 64-bit integers. On
  \<open>c6_call\<close> under \<open>c6_gate\<close> the real edge at \<open>2\<^sup>4\<^sup>0 + 335000\<close> is therefore not
  consumed while the loop is gated, although it lies more than half a period behind the
  edge position; the reacquisition then snaps the edge position back to it, and the
  second output offset is 5000 fs before the first.
\<close>

theorem gated_offsets_not_increasing:
  "map_option (map_sum id offsets) (InnerLoopWithGating c6_call (Some c6_gate)) =
     Some (Inr [1099512027776, 1099512022776, 1099512062776, 1099512102776, 1099512142637])"
  by (simp add: InnerLoopWithGating_def c6_call_def c6_gate_def while_option_unfold g_eval float_eval)

subsection \<open>The frequency error\<close>

lemma tenth_le: "0 < p \<Longrightarrow> 10 * u < p \<Longrightarrow> u \<le> p div 10" for p u :: int
  by presburger

lemma ng_glitch_skipped:
  assumes "0 < initialPeriod s" "10 * (tnext - tlast s) < initialPeriod s"
  shows "\<not> i2f (tnext - tlast s) > i2f (glitchCutoff s)"
proof -
  have "glitchCutoff s = initialPeriod s div 10"
    using assms(1) by (simp add: glitchCutoff_def signed_divide_int_def)
  moreover have "tnext - tlast s \<le> initialPeriod s div 10" using assms by (rule tenth_le)
  ultimately show ?thesis using i2f_mono [of "tnext - tlast s" "glitchCutoff s"] by simp
qed

lemma ng_boundary_multiple:
  assumes "0 < initialPeriod s" "\<not> 10 * (tnext - tlast s) < initialPeriod s"
    and "\<not> i2f (tnext - tlast s) > i2f (glitchCutoff s)"
  shows "ng_numUIs s tnext = 0"
proof -
  define u where "u = tnext - tlast s"
  define c where "c = initialPeriod s div 10"
  define X :: rat where "X = of_int (initialPeriod s)"
  have X: "0 < X" using assms(1) by (simp add: X_def)
  have gc: "glitchCutoff s = c"
    using assms(1) by (simp add: glitchCutoff_def signed_divide_int_def c_def)
  have "1 \<le> u" using assms(1,2) by (simp add: u_def)
  then have upos: "(0::rat) < of_int u" by simp
  note a = f32_bounds [OF upos]
  have le: "f32 (of_int u) \<le> f32 (of_int c)"
    using assms(3) by (simp add: gc u_def i2f_def)
  have "c \<noteq> 0"
  proof
    assume "c = 0"
    with le a(1) show False by (simp add: f32_def)
  qed
  moreover have "0 \<le> c" using assms(1) by (simp add: c_def)
  ultimately have cpos: "(0::rat) < of_int c" by simp
  have "10 * c \<le> initialPeriod s" by (simp add: c_def)
  then have "(of_int (10 * c) :: rat) \<le> of_int (initialPeriod s)" by (simp only: of_int_le_iff)
  then have cX: "of_int c \<le> X / 10" by (simp add: X_def)
  have A: "f32 (of_int u) \<le> 17 / 160 * X"
    using le f32_bounds(2) [OF cpos] cX by linarith
  note fr = initialFrequency_bounds [OF assms(1)]
  have "f32 (of_int u) * initialFrequency s \<le> (17 / 160 * X) * (289 / 240 * (1 / X))"
    using A fr a(1) X by (intro mult_mono) (simp_all add: X_def)
  also have "\<dots> = 4913 / 38400" using X by simp
  finally have P: "f32 (of_int u) * initialFrequency s \<le> 4913 / 38400" .
  have Ppos: "0 < f32 (of_int u) * initialFrequency s" using a(1) fr(1) by simp
  note f3 = f32_bounds [OF Ppos]
  have "f32 (f32 (of_int u) * initialFrequency s) < 1 / 2" using f3(2) P by linarith
  with f3(1) have "cround (f32 (f32 (of_int u) * initialFrequency s)) = 0"
    by (intro cround_small) simp_all
  then show ?thesis by (simp add: ng_numUIs_def i2f_def u_def)
qed

lemma g_quotient_small:
  assumes "0 < initialPeriod s" "10 * (tnext - tlast s) < initialPeriod s"
  shows "f64 (f64 (i2d (tnext - tlast s) * 1) / i2d (initialPeriod s)) < 1 / 2"
proof -
  define u where "u = tnext - tlast s"
  define X :: rat where "X = of_int (initialPeriod s)"
  have X: "0 < X" using assms(1) by (simp add: X_def)
  note b = f64_bounds [OF X]
  note r = recip_bounds [OF X b(3)]
  show ?thesis
  proof (cases "0 < u")
    case False
    then have "(of_int u :: rat) \<le> 0" by simp
    then have "f64 (f64 (of_int u)) \<le> 0" by (intro f64_nonpos)
    then have "f64 (f64 (of_int u)) / f64 X \<le> 0" using b(1) by (simp add: divide_le_0_iff)
    then have "f64 (f64 (f64 (of_int u)) / f64 X) \<le> 0" by (rule f64_nonpos)
    then show ?thesis by (simp add: i2d_def u_def X_def)
  next
    case True
    then have upos: "(0::rat) < of_int u" by simp
    note a1 = f64_bounds [OF upos]
    note a2 = f64_bounds [OF a1(1)]
    have "(of_int (10 * u) :: rat) < of_int (initialPeriod s)"
      using assms(2) by (simp only: of_int_less_iff u_def)
    then have uX: "of_int u < X / 10" by (simp add: X_def)
    have num: "f64 (f64 (of_int u)) \<le> 289 / 2560 * X" using a2(2) a1(2) uX by linarith
    have "f64 (f64 (of_int u)) * (1 / f64 X) \<le> (289 / 2560 * X) * (16 / 15 * (1 / X))"
      using num r a2(1) X by (intro mult_mono) simp_all
    also have "\<dots> = 289 / 2400" using X by simp
    finally have Q: "f64 (f64 (of_int u)) / f64 X \<le> 289 / 2400" by simp
    have Qpos: "0 < f64 (f64 (of_int u)) / f64 X" using a2(1) b(1) by simp
    note q = f64_bounds [OF Qpos]
    have "f64 (f64 (f64 (of_int u)) / f64 X) < 1 / 2" using q(2) Q by linarith
    then show ?thesis by (simp add: i2d_def u_def X_def)
  qed
qed

lemma d_0_1_range: "0 < d_0_1" "d_0_1 < 1"
  by (simp_all add: d_0_1_eval)

lemma g_glitch_skipped:
  assumes "0 < initialPeriod s" "10 * (tnext - tlast s) < initialPeriod s"
  shows "g_numUIs s tnext < d_0_1"
proof -
  from cround_below_half [OF g_quotient_small [OF assms]] obtain n
    where n: "cround (f64 (f64 (i2d (tnext - tlast s) * 1) / i2d (initialPeriod s))) = of_int n"
      and "n \<le> 0" by blast
  then have "(of_int n :: rat) \<le> 0" by simp
  then have "f32 (of_int n) \<le> 0" by (rule f32_nonpos)
  then have "f32 (of_int n) < d_0_1" using d_0_1_range(1) by linarith
  then show ?thesis by (simp only: g_numUIs_def n)
qed

lemma g_guard_is_zero:
  assumes "0 < initialPeriod s" "\<not> 10 * (tnext - tlast s) < initialPeriod s"
  shows "g_numUIs s tnext < d_0_1 \<longleftrightarrow> g_numUIs s tnext = 0"
proof -
  define u where "u = tnext - tlast s"
  define X :: rat where "X = of_int (initialPeriod s)"
  have X: "0 < X" using assms(1) by (simp add: X_def)
  have "1 \<le> u" using assms by (simp add: u_def)
  then have upos: "(0::rat) < of_int u" by simp
  note a1 = f64_bounds [OF upos]
  note a2 = f64_bounds [OF a1(1)]
  note b = f64_bounds [OF X]
  have Qpos: "0 < f64 (f64 (of_int u)) / f64 X" using a2(1) b(1) by simp
  then have "0 \<le> f64 (f64 (f64 (of_int u)) / f64 X)" using f64_bounds(1) [OF Qpos] by simp
  then have "0 \<le> f64 (f64 (i2d (tnext - tlast s) * 1) / i2d (initialPeriod s))"
    by (simp add: i2d_def u_def X_def)
  from cround_nonneg [OF this] obtain n
    where n: "cround (f64 (f64 (i2d (tnext - tlast s) * 1) / i2d (initialPeriod s))) = of_int n"
      and n0: "0 \<le> n" by blast
  have e: "g_numUIs s tnext = f32 (of_int n)"
    by (simp only: g_numUIs_def n)
  show ?thesis
  proof (cases "n = 0")
    case True
    then show ?thesis using d_0_1_range(1) by (simp add: e f32_def)
  next
    case False
    with n0 have "1 \<le> n" by simp
    from f32_one_le [OF this] show ?thesis using d_0_1_range(2) by (simp add: e)
  qed
qed

text \<open>
  C4. For a visited edge let \<open>uiLen = tnext - tlast\<close>. In both loops, with a positive
  \<open>initialPeriod\<close>: when \<open>uiLen\<close> is smaller than a tenth of \<open>initialPeriod\<close> the frequency
  error is zero (the edge is a glitch); otherwise, when the rounded number of unit
  intervals is zero, the frequency error is zero too, and no division takes place; and
  otherwise the frequency error is the period less \<open>uiLen\<close> divided by that number.
  \<open>ng_numUIs\<close> and \<open>g_numUIs\<close> are the rounded numbers as the loops compute them,
  \<^verbatim>\<open>round(uiLen * initialFrequency)\<close> in \<^verbatim>\<open>float\<close> and \<^verbatim>\<open>round(uiLen * 1.0 / initialPeriod)\<close>
  in \<^verbatim>\<open>double\<close>; the divisions and the subtraction are those of the code. The non-gated
  loop tests \<^verbatim>\<open>uiLen > glitchCutoff\<close> in \<^verbatim>\<open>float\<close> and the gated loop tests \<^verbatim>\<open>numUIs < 0.1\<close>:
  the theorem shows that both agree with the comparison of the integers, and that where
  they differ from it the rounded number is zero. \<open>initialPeriod\<close> is positive when
  \<^verbatim>\<open>Refresh\<close> calls the loops; the non-gated loop does not assign to it, and a
  reacquisition on strictly increasing edges assigns an average of at least 1 fs
  (\<open>reacquire_period\<close>).
\<close>

theorem glitch_and_zero_multiple_skip_frequency_term:
  "(0 < initialPeriod s \<longrightarrow>
      ng_fdperiod s tnext =
        (if 10 * (tnext - tlast s) < initialPeriod s then 0
         else if ng_numUIs s tnext = 0 then 0
         else f32 (fperiod s - f32 (i2f (tnext - tlast s) / ng_numUIs s tnext)))) \<and>
   (0 < initialPeriod t \<longrightarrow>
      g_dperiod t tnext' =
        (if 10 * (tnext' - tlast t) < initialPeriod t then 0
         else if g_numUIs t tnext' = 0 then 0
         else period t - f2i (f32 (i2f (tnext' - tlast t) / g_numUIs t tnext'))))"
proof (intro conjI impI)
  assume p: "0 < initialPeriod s"
  show "ng_fdperiod s tnext =
        (if 10 * (tnext - tlast s) < initialPeriod s then 0
         else if ng_numUIs s tnext = 0 then 0
         else f32 (fperiod s - f32 (i2f (tnext - tlast s) / ng_numUIs s tnext)))"
  proof (cases "10 * (tnext - tlast s) < initialPeriod s")
    case True
    from ng_glitch_skipped [OF p this] True show ?thesis
      by (simp add: ng_fdperiod_def Let_def)
  next
    case False
    show ?thesis
    proof (cases "i2f (tnext - tlast s) > i2f (glitchCutoff s)")
      case True
      with False show ?thesis by (simp add: ng_fdperiod_def Let_def)
    next
      case b: False
      from ng_boundary_multiple [OF p False b] False b show ?thesis
        by (simp add: ng_fdperiod_def Let_def)
    qed
  qed
next
  assume p: "0 < initialPeriod t"
  show "g_dperiod t tnext' =
        (if 10 * (tnext' - tlast t) < initialPeriod t then 0
         else if g_numUIs t tnext' = 0 then 0
         else period t - f2i (f32 (i2f (tnext' - tlast t) / g_numUIs t tnext')))"
  proof (cases "10 * (tnext' - tlast t) < initialPeriod t")
    case True
    from g_glitch_skipped [OF p this] True show ?thesis
      by (simp add: g_dperiod_def Let_def)
  next
    case False
    from g_guard_is_zero [OF p this] False show ?thesis
      by (simp add: g_dperiod_def Let_def)
  qed
qed

lemma c3_step_multiples:
  "ng_numUIs c3_ng_step 700 = 0" "ng_numUIs c3_ng_step 5000 = 4"
  "g_numUIs c3_g_step 700 = 0" "g_numUIs c3_g_step 5000 = 4"
  by (simp_all add: c3_ng_step_def c3_g_step_def ng_numUIs_def initialFrequency_def g_numUIs_def
      float_eval)

lemma c3_step_quotients:
  "f32 (fperiod c3_ng_step - f32 (i2f (5000 - tlast c3_ng_step) / 4)) = - 100"
  "period c3_g_step - f2i (f32 (i2f (5000 - tlast c3_g_step) / 4)) = - 100"
  by (simp_all add: c3_ng_step_def c3_g_step_def float_eval)

theorem glitch_and_zero_multiple_skip_frequency_term_witness:
  "ng_fdperiod c3_ng_step 650 = 0 \<and> ng_fdperiod c3_ng_step 700 = 0 \<and>
   ng_fdperiod c3_ng_step 5000 = - 100 \<and>
   g_dperiod c3_g_step 650 = 0 \<and> g_dperiod c3_g_step 700 = 0 \<and>
   g_dperiod c3_g_step 5000 = - 100"
proof -
  have h: "0 < initialPeriod c3_ng_step" "0 < initialPeriod c3_g_step"
    by (simp_all add: c3_ng_step_def c3_g_step_def)
  have v: "initialPeriod c3_ng_step = 1000" "tlast c3_ng_step = 600"
    "initialPeriod c3_g_step = 1000" "tlast c3_g_step = 600"
    by (simp_all add: c3_ng_step_def c3_g_step_def)
  note a = glitch_and_zero_multiple_skip_frequency_term [of c3_ng_step 650 c3_g_step 650]
  note b = glitch_and_zero_multiple_skip_frequency_term [of c3_ng_step 700 c3_g_step 700]
  note c = glitch_and_zero_multiple_skip_frequency_term [of c3_ng_step 5000 c3_g_step 5000]
  from a [THEN conjunct1, THEN mp, OF h(1)] have "ng_fdperiod c3_ng_step 650 = 0"
    by (simp add: v)
  moreover from b [THEN conjunct1, THEN mp, OF h(1)] have "ng_fdperiod c3_ng_step 700 = 0"
    by (simp add: v c3_step_multiples)
  moreover from c [THEN conjunct1, THEN mp, OF h(1)] have "ng_fdperiod c3_ng_step 5000 = - 100"
    by (simp only: c3_step_multiples c3_step_quotients) (simp add: v)
  moreover from a [THEN conjunct2, THEN mp, OF h(2)] have "g_dperiod c3_g_step 650 = 0"
    by (simp add: v)
  moreover from b [THEN conjunct2, THEN mp, OF h(2)] have "g_dperiod c3_g_step 700 = 0"
    by (simp add: v c3_step_multiples)
  moreover from c [THEN conjunct2, THEN mp, OF h(2)] have "g_dperiod c3_g_step 5000 = - 100"
    by (simp only: c3_step_multiples c3_step_quotients) (simp add: v)
  ultimately show ?thesis by simp
qed

end
